theory Spec2Isabelle
  imports Complex_Main "HOL-Library.AList"
begin

section \<open>Conventions of the embedding\<close>

text \<open>
  The program is the Python market-making engine under \<^verbatim>\<open>src/pmm\<close>. Python floats are
  modelled as \<^typ>\<open>real\<close> (exact arithmetic, no rounding, no NaN or infinity), Python
  integers as \<^typ>\<open>int\<close>, strings as \<^typ>\<open>string\<close>, \<^verbatim>\<open>Optional[T]\<close> as
  \<^typ>\<open>'a option\<close>. Dataclasses are records; their field names carry a short prefix
  because record fields share one name space. Exceptions are values of
  \<open>py_error\<close>.
\<close>

datatype py_error = ZeroDivisionError | IndexError | OverflowError

subsection \<open>Text of numbers, upper case\<close>

text \<open>
  \<open>str_int\<close> is Python's \<^verbatim>\<open>str\<close> on an integer (decimal digits, a leading minus sign);
  \<open>upper\<close> is \<^verbatim>\<open>str.upper\<close> on ASCII text.
\<close>

definition digit_char :: "nat \<Rightarrow> char" where
  "digit_char d = char_of (48 + d)"

function str_nat :: "nat \<Rightarrow> string" where
  "str_nat n = (if n < 10 then [digit_char n] else str_nat (n div 10) @ [digit_char (n mod 10)])"
  by pat_completeness auto
termination
  by (relation "measure id") auto

declare str_nat.simps [simp del]

definition str_int :: "int \<Rightarrow> string" where
  "str_int i = (if i < 0 then CHR ''-'' # str_nat (nat (- i)) else str_nat (nat i))"

definition upper_char :: "char \<Rightarrow> char" where
  "upper_char c =
     (let n = of_char c :: nat in if 97 \<le> n \<and> n \<le> 122 then char_of (n - 32) else c)"

definition upper :: "string \<Rightarrow> string" where
  "upper s = map upper_char s"

subsection \<open>\<^verbatim>\<open>pmm/utils/math.py\<close>\<close>

definition clamp :: "real \<Rightarrow> real \<Rightarrow> real \<Rightarrow> real" where
  "clamp x lo hi = max lo (min hi x)"

section \<open>Spread quoter: \<^verbatim>\<open>pmm/strategy/mm_spread.py\<close>\<close>

record Quote =
  q_side :: string
  q_price :: real
  q_size :: real

record SymmetricSpreadMM =
  mm_target_spread_bps :: real
  mm_max_usd :: real
  mm_alpha_scale :: real

definition quotes :: "SymmetricSpreadMM \<Rightarrow> real \<Rightarrow> Quote list" where
  "quotes self midpoint =
     (let mid = midpoint;
          spread = mid * (mm_target_spread_bps self / 10000);
          bid = clamp (mid - spread / 2) 0.001 0.999;
          ask = clamp (mid + spread / 2) 0.001 0.999;
          usd_each_side = (mm_max_usd self / 2) * mm_alpha_scale self;
          bid_size = max 1 (usd_each_side / max 0.01 bid);
          ask_size = max 1 (usd_each_side / max 0.01 ask)
      in [\<lparr>q_side = ''BUY'', q_price = bid, q_size = bid_size\<rparr>,
          \<lparr>q_side = ''SELL'', q_price = ask, q_size = ask_size\<rparr>])"

text \<open>
  The quoter as the specification words it (section 4.1), with the half spread
  \<open>half = m \<cdot> s / 10000\<close>. It is compared with \<^const>\<open>quotes\<close> below.
\<close>

definition quotes_as_specified :: "SymmetricSpreadMM \<Rightarrow> real \<Rightarrow> Quote list" where
  "quotes_as_specified self m =
     (let s = mm_target_spread_bps self;
          u = (mm_max_usd self / 2) * mm_alpha_scale self;
          half = m * s / 10000;
          bid = clamp (m - half) 0.001 0.999;
          ask = clamp (m + half) 0.001 0.999
      in [\<lparr>q_side = ''BUY'', q_price = bid, q_size = max 1 (u / max 0.01 bid)\<rparr>,
          \<lparr>q_side = ''SELL'', q_price = ask, q_size = max 1 (u / max 0.01 ask)\<rparr>])"

section \<open>Circuit breaker: \<^verbatim>\<open>pmm/strategy/circuit_breaker.py\<close>\<close>

record CircuitConfig =
  cfg_max_reject_rate :: real
  cfg_window_sec :: int
  cfg_max_cancels_per_min :: int
  cfg_max_errors :: int

record CircuitState =
  cs_placed :: int
  cs_rejected :: int
  cs_errors :: int
  cs_cancel_events :: "int list"

record CircuitBreaker =
  cb_cfg :: CircuitConfig
  cb_state :: CircuitState
  cb_start_ts :: int

text \<open>The constructor; \<open>now\<close> is the reading of the clock.\<close>

definition CircuitBreaker_init :: "CircuitConfig \<Rightarrow> int \<Rightarrow> CircuitBreaker" where
  "CircuitBreaker_init cfg now =
     \<lparr>cb_cfg = cfg,
      cb_state = \<lparr>cs_placed = 0, cs_rejected = 0, cs_errors = 0, cs_cancel_events = []\<rparr>,
      cb_start_ts = now\<rparr>"

definition record_place :: "bool \<Rightarrow> CircuitBreaker \<Rightarrow> CircuitBreaker" where
  "record_place ok self =
     (let st = cb_state self;
          st = st\<lparr>cs_placed := cs_placed st + 1\<rparr>;
          st = (if \<not> ok then st\<lparr>cs_rejected := cs_rejected st + 1\<rparr> else st)
      in self\<lparr>cb_state := st\<rparr>)"

text \<open>
  The trimming loop of \<^verbatim>\<open>record_cancel\<close>: pop from the left while the head is older
  than 60 s.
\<close>

fun trim_events :: "int \<Rightarrow> int list \<Rightarrow> int list" where
  "trim_events now [] = []"
| "trim_events now (t # ts) = (if now - t > 60 then trim_events now ts else t # ts)"

definition record_cancel :: "int \<Rightarrow> CircuitBreaker \<Rightarrow> CircuitBreaker" where
  "record_cancel now self =
     (let st = cb_state self
      in self\<lparr>cb_state :=
                st\<lparr>cs_cancel_events := trim_events now (cs_cancel_events st @ [now])\<rparr>\<rparr>)"

definition record_error :: "CircuitBreaker \<Rightarrow> CircuitBreaker" where
  "record_error self =
     self\<lparr>cb_state := (cb_state self)\<lparr>cs_errors := cs_errors (cb_state self) + 1\<rparr>\<rparr>"

text \<open>
  \<^verbatim>\<open>should_halt\<close> returns the flag and the reason text. The text of the reject rate is
  the format \<^verbatim>\<open>{reject_rate:.2%}\<close> of Python's formatting library, which is taken as the
  parameter \<open>fmt_pct\<close>.
\<close>

definition should_halt :: "(real \<Rightarrow> string) \<Rightarrow> CircuitBreaker \<Rightarrow> bool \<times> string" where
  "should_halt fmt_pct self =
     (let st = cb_state self;
          cfg = cb_cfg self;
          denom = max 1 (cs_placed st);
          reject_rate = real_of_int (cs_rejected st) / real_of_int denom
      in if reject_rate \<ge> cfg_max_reject_rate cfg \<and> cs_placed st \<ge> 20
         then (True, ''reject_rate='' @ fmt_pct reject_rate @ '' over placed=''
                       @ str_int (cs_placed st))
         else if int (length (cs_cancel_events st)) > cfg_max_cancels_per_min cfg
         then (True, ''cancel_rate='' @ str_int (int (length (cs_cancel_events st))) @ ''/min'')
         else if cs_errors st \<ge> cfg_max_errors cfg
         then (True, ''errors='' @ str_int (cs_errors st))
         else (False, []))"

text \<open>
  The history of a breaker: the calls of \<^verbatim>\<open>record_place\<close>, \<^verbatim>\<open>record_cancel\<close> (with the
  reading of the clock) and \<^verbatim>\<open>record_error\<close> made on it, in order. \<open>cancel_times\<close> are the
  times of the recorded cancels, \<open>place_flags\<close> the flags of the recorded placements,
  \<open>error_count\<close> the number of recorded errors; \<open>cancels_within now ts\<close> picks the cancel
  events at most 60 s before \<open>now\<close>.
\<close>

datatype cb_event = Placed bool | Cancelled int | Errored

fun apply_event :: "cb_event \<Rightarrow> CircuitBreaker \<Rightarrow> CircuitBreaker" where
  "apply_event (Placed ok) cb = record_place ok cb"
| "apply_event (Cancelled now) cb = record_cancel now cb"
| "apply_event Errored cb = record_error cb"

fun cancel_times :: "cb_event list \<Rightarrow> int list" where
  "cancel_times [] = []"
| "cancel_times (Cancelled t # evs) = t # cancel_times evs"
| "cancel_times (e # evs) = cancel_times evs"

fun place_flags :: "cb_event list \<Rightarrow> bool list" where
  "place_flags [] = []"
| "place_flags (Placed ok # evs) = ok # place_flags evs"
| "place_flags (e # evs) = place_flags evs"

fun error_count :: "cb_event list \<Rightarrow> nat" where
  "error_count [] = 0"
| "error_count (Errored # evs) = Suc (error_count evs)"
| "error_count (e # evs) = error_count evs"

definition cancels_within :: "int \<Rightarrow> int list \<Rightarrow> int list" where
  "cancels_within now ts = filter (\<lambda>t. now - t \<le> 60) ts"

section \<open>Calibrator: \<^verbatim>\<open>pmm/strategy/calibrator.py\<close>\<close>

record MarketCalibState =
  st_fills :: int
  st_quotes :: int
  st_markout_sum :: real
  st_realized_spread_sum :: real

record MarketCalibParams =
  p_alpha :: real
  p_target_spread_bps :: real
  p_max_usd :: real
  p_quote_refresh_sec :: real
  p_cancel_reprice_sec :: real
  p_state :: MarketCalibState

text \<open>
  \<^verbatim>\<open>next_params\<close> divides by the prior spread; on floats Python raises
  \<^verbatim>\<open>ZeroDivisionError\<close> when it is zero. The other two divisions have a divisor
  \<open>max 1 _\<close>.
\<close>

definition next_params :: "MarketCalibParams \<Rightarrow> py_error + MarketCalibParams" where
  "next_params prev =
     (let st = p_state prev
      in if st_quotes st \<le> 0 then Inr prev
         else
           let fill_rate = real_of_int (st_fills st) / real_of_int (max 1 (st_quotes st));
               avg_markout = st_markout_sum st / real_of_int (max 1 (st_fills st));
               spread = p_target_spread_bps prev;
               spread = (if st_fills st \<ge> 5 \<and> avg_markout < 0
                         then spread * (1 + min 0.50 (\<bar>avg_markout\<bar> * 5))
                         else if fill_rate < 0.01 \<and> st_quotes st > 500
                         then spread * 0.90
                         else spread);
               spread = max 20 (min spread 500)
           in if p_target_spread_bps prev = 0 then Inl ZeroDivisionError
              else
                let quote_refresh =
                      min 10 (max 1 (p_quote_refresh_sec prev
                                       * (spread / p_target_spread_bps prev)));
                    cancel_reprice =
                      min 60 (max 5 (p_cancel_reprice_sec prev
                                       * (spread / p_target_spread_bps prev)))
                in Inr \<lparr>p_alpha = p_alpha prev,
                        p_target_spread_bps = spread,
                        p_max_usd = p_max_usd prev,
                        p_quote_refresh_sec = quote_refresh,
                        p_cancel_reprice_sec = cancel_reprice,
                        p_state = st\<rparr>)"

section \<open>Inventory: \<^verbatim>\<open>pmm/analytics/inventory.py\<close>\<close>

record Position =
  pos_qty :: real
  pos_avg_cost :: real
  pos_realized :: real

record InventoryEngine =
  inv_cash :: real
  inv_pos :: "string \<rightharpoonup> Position"

definition InventoryEngine_init :: "real \<Rightarrow> InventoryEngine" where
  "InventoryEngine_init starting_cash = \<lparr>inv_cash = starting_cash, inv_pos = Map.empty\<rparr>"

definition apply_fill ::
  "string \<Rightarrow> string \<Rightarrow> real \<Rightarrow> real \<Rightarrow> real \<Rightarrow> InventoryEngine \<Rightarrow> InventoryEngine" where
  "apply_fill token_id side price size' fee self =
     (let side = upper side;
          p = (case inv_pos self token_id of
                 None \<Rightarrow> \<lparr>pos_qty = 0, pos_avg_cost = 0, pos_realized = 0\<rparr>
               | Some p \<Rightarrow> p)
      in if side = ''BUY'' then
           let cost = price * size' + fee;
               new_qty = pos_qty p + size';
               p = (if new_qty > 1 / 10 ^ 12
                    then p\<lparr>pos_avg_cost :=
                             (pos_avg_cost p * pos_qty p + price * size') / new_qty\<rparr>
                    else p);
               p = p\<lparr>pos_qty := new_qty\<rparr>
           in self\<lparr>inv_cash := inv_cash self - cost,
                   inv_pos := (inv_pos self)(token_id \<mapsto> p)\<rparr>
         else
           let proceeds = price * size' - fee;
               sell_size = min size' (pos_qty p);
               p = p\<lparr>pos_realized := pos_realized p + (price - pos_avg_cost p) * sell_size\<rparr>;
               p = p\<lparr>pos_qty := pos_qty p - sell_size\<rparr>;
               p = (if pos_qty p \<le> 1 / 10 ^ 12
                    then p\<lparr>pos_qty := 0, pos_avg_cost := 0\<rparr> else p)
           in self\<lparr>inv_cash := inv_cash self + proceeds,
                   inv_pos := (inv_pos self)(token_id \<mapsto> p)\<rparr>)"

text \<open>
  A fill as the control loop reads it from the trades table, and the loop applying
  the fills in order.
\<close>

record Fill =
  f_token_id :: string
  f_side :: string
  f_price :: real
  f_size :: real
  f_fee :: real

fun apply_fills :: "Fill list \<Rightarrow> InventoryEngine \<Rightarrow> InventoryEngine" where
  "apply_fills [] self = self"
| "apply_fills (f # fs) self =
     apply_fills fs (apply_fill (f_token_id f) (f_side f) (f_price f) (f_size f) (f_fee f) self)"

text \<open>The invariant of a position that the fills keep (used in the proofs below).\<close>

definition pos_ok :: "Position \<Rightarrow> bool" where
  "pos_ok p \<longleftrightarrow> 0 \<le> pos_qty p \<and> 0 \<le> pos_avg_cost p
                \<and> (pos_avg_cost p = 0 \<longleftrightarrow> pos_qty p \<le> 1 / 10 ^ 12)"

section \<open>Order lifecycle manager: \<^verbatim>\<open>pmm/execution/order_manager.py\<close>\<close>

subsection \<open>Venue results, live orders, persisted rows\<close>

text \<open>JSON values of the \<^verbatim>\<open>raw\<close>, \<^verbatim>\<open>meta_json\<close> and \<^verbatim>\<open>raw_json\<close> dictionaries.\<close>

datatype jval = JNull | JBool bool | JInt int | JNum real | JStr string
  | JObj "(string \<times> jval) list"

definition jnum_opt :: "real option \<Rightarrow> jval" where
  "jnum_opt x = (case x of None \<Rightarrow> JNull | Some r \<Rightarrow> JNum r)"

definition jstr_opt :: "string option \<Rightarrow> jval" where
  "jstr_opt x = (case x of None \<Rightarrow> JNull | Some s \<Rightarrow> JStr s)"

definition jobj_opt :: "(string \<times> jval) list option \<Rightarrow> jval" where
  "jobj_opt x = (case x of None \<Rightarrow> JNull | Some d \<Rightarrow> JObj d)"

text \<open>\<^verbatim>\<open>PlaceOrderResult\<close> of \<^verbatim>\<open>pmm/execution/exchange_base.py\<close>.\<close>

record PlaceOrderResult =
  res_success :: bool
  res_venue_order_id :: "string option"
  res_error :: "string option"
  res_raw :: "(string \<times> jval) list option"

text \<open>
  \<^verbatim>\<open>ExchangeBase\<close>: the venue adapter is a parameter of the model. Its own state (of any
  type \<open>'x\<close>) is passed through each call, so that an adapter may answer differently from one
  call to the next.
\<close>

record 'x ExchangeBase =
  ex_place_limit ::
    "'x \<Rightarrow> string \<Rightarrow> string \<Rightarrow> real \<Rightarrow> real \<Rightarrow> bool \<Rightarrow> (string \<times> jval) list
       \<Rightarrow> PlaceOrderResult \<times> 'x"
  ex_cancel :: "'x \<Rightarrow> string \<Rightarrow> bool \<times> 'x"
  ex_is_paper :: bool

record LiveOrderState =
  lo_local_order_id :: string
  lo_venue_order_id :: string
  lo_token_id :: string
  lo_side :: string
  lo_price :: real
  lo_size :: real
  lo_created_ts :: int

text \<open>The dictionary given to \<^verbatim>\<open>repo.upsert_order\<close>, and the one given to \<^verbatim>\<open>repo.insert_trade\<close>.\<close>

record OrderRow =
  row_run_id :: string
  row_local_order_id :: string
  row_venue_order_id :: "string option"
  row_condition_id :: "string option"
  row_token_id :: string
  row_side :: string
  row_price :: real
  row_size :: real
  row_post_only :: int
  row_status :: string
  row_created_ts :: int
  row_updated_ts :: int
  row_meta_json :: "(string \<times> jval) list"

record TradeRow =
  tr_run_id :: string
  tr_trade_id :: string
  tr_venue_order_id :: string
  tr_condition_id :: string
  tr_token_id :: string
  tr_side :: string
  tr_price :: real
  tr_size :: real
  tr_status :: string
  tr_ts :: int
  tr_raw_json :: "(string \<times> jval) list"

text \<open>
  What the order manager shares with the rest of the process: the venue adapter's state, the
  source of \<^verbatim>\<open>uuid.uuid4()\<close> (of any type \<open>'u\<close>), and the store, as the journal of the rows
  written to the orders and trades tables, in order.
\<close>

record ('x, 'u) World =
  venue :: 'x
  uuid_src :: 'u
  orders_tbl :: "OrderRow list"
  trades_tbl :: "TradeRow list"

text \<open>
  The order manager. \<^verbatim>\<open>live\<close> is a Python dictionary, modelled as an association list in
  insertion order; \<open>'r\<close> is the state of the generator \<^verbatim>\<open>random.Random\<close>.
\<close>

record 'r OrderManager =
  om_run_id :: string
  om_max_orders_per_token :: int
  om_cancel_reprice_sec :: real
  om_post_only :: bool
  om_tick_size :: "real option"
  om_live :: "(string \<times> LiveOrderState list) list"
  om_rng :: 'r

text \<open>\<^verbatim>\<open>self.live.get(token_id, [])\<close>\<close>

definition live_get :: "'r OrderManager \<Rightarrow> string \<Rightarrow> LiveOrderState list" where
  "live_get self token_id = (case map_of (om_live self) token_id of None \<Rightarrow> [] | Some l \<Rightarrow> l)"

text \<open>\<^verbatim>\<open>self.tick_size or d\<close>: the default when the tick is \<^verbatim>\<open>None\<close> or zero.\<close>

definition tick_or :: "'r OrderManager \<Rightarrow> real \<Rightarrow> real" where
  "tick_or self d = (case om_tick_size self of None \<Rightarrow> d | Some t \<Rightarrow> if t = 0 then d else t)"

definition price_changed :: "'r OrderManager \<Rightarrow> real \<Rightarrow> real \<Rightarrow> bool" where
  "price_changed self old new =
     (case om_tick_size self of
        None \<Rightarrow> \<bar>old - new\<bar> \<ge> max (1 / 10 ^ 4) (old * 0.0001)
      | Some t \<Rightarrow> if t = 0 then \<bar>old - new\<bar> \<ge> max (1 / 10 ^ 4) (old * 0.0001)
                  else \<bar>old - new\<bar> \<ge> t - 1 / 10 ^ 12)"

subsection \<open>Post-only guard\<close>

text \<open>
  The two guarded statements of \<^verbatim>\<open>_guard_post_only\<close>; each gives \<open>Some r\<close> when it
  returns \<open>r\<close> and \<open>None\<close> when control falls through. The result \<open>r\<close> is itself
  \<^verbatim>\<open>float | None\<close>.
\<close>

definition guard_buy :: "'r OrderManager \<Rightarrow> string \<Rightarrow> real \<Rightarrow> real option \<Rightarrow> real option option" where
  "guard_buy self side price best_ask =
     (case best_ask of
        None \<Rightarrow> None
      | Some a \<Rightarrow>
          if side = ''BUY'' \<and> price \<ge> a
          then (let adj = a - tick_or self (1 / 10 ^ 3) in Some (if adj > 0 then Some adj else None))
          else None)"

definition guard_sell :: "'r OrderManager \<Rightarrow> string \<Rightarrow> real \<Rightarrow> real option \<Rightarrow> real option option" where
  "guard_sell self side price best_bid =
     (case best_bid of
        None \<Rightarrow> None
      | Some b \<Rightarrow>
          if side = ''SELL'' \<and> price \<le> b
          then (let adj = b + tick_or self (1 / 10 ^ 3) in Some (if adj < 1 then Some adj else None))
          else None)"

definition guard_post_only ::
  "'r OrderManager \<Rightarrow> string \<Rightarrow> real \<Rightarrow> real option \<Rightarrow> real option \<Rightarrow> real option" where
  "guard_post_only self side price best_bid best_ask =
     (if \<not> om_post_only self then Some price
      else
        let side = upper side
        in case guard_buy self side price best_ask of
             Some r \<Rightarrow> r
           | None \<Rightarrow>
               (case guard_sell self side price best_bid of
                  Some r \<Rightarrow> r
                | None \<Rightarrow> Some price))"

subsection \<open>Stale cancel\<close>

definition post_only_int :: "'r OrderManager \<Rightarrow> int" where
  "post_only_int self = (if om_post_only self then 1 else 0)"

definition cancel_status :: "bool \<Rightarrow> string" where
  "cancel_status ok = (if ok then ''CANCELED'' else ''ERROR'')"

definition stale :: "'r OrderManager \<Rightarrow> int \<Rightarrow> LiveOrderState \<Rightarrow> bool" where
  "stale self now o' = (real_of_int (now - lo_created_ts o') \<ge> om_cancel_reprice_sec self)"

definition stale_row :: "'r OrderManager \<Rightarrow> int \<Rightarrow> LiveOrderState \<Rightarrow> bool \<Rightarrow> OrderRow" where
  "stale_row self now o' ok =
     \<lparr>row_run_id = om_run_id self,
      row_local_order_id = lo_local_order_id o',
      row_venue_order_id = Some (lo_venue_order_id o'),
      row_condition_id = None,
      row_token_id = lo_token_id o',
      row_side = lo_side o',
      row_price = lo_price o',
      row_size = lo_size o',
      row_post_only = post_only_int self,
      row_status = cancel_status ok,
      row_created_ts = lo_created_ts o',
      row_updated_ts = now,
      row_meta_json = [(''reason'', JStr ''stale''), (''ok'', JBool ok)]\<rparr>"

text \<open>
  The inner loop of \<^verbatim>\<open>cancel_stale\<close> over the orders of one token; the loop variables are
  \<open>keep\<close>, \<open>cancels\<close> and the world.
\<close>

fun cancel_stale_orders ::
  "'x ExchangeBase \<Rightarrow> 'r OrderManager \<Rightarrow> int \<Rightarrow> LiveOrderState list
     \<Rightarrow> LiveOrderState list \<times> int \<times> ('x, 'u) World
     \<Rightarrow> LiveOrderState list \<times> int \<times> ('x, 'u) World" where
  "cancel_stale_orders ex self now [] acc = acc"
| "cancel_stale_orders ex self now (o' # os) (keep, cancels, w) =
     (if stale self now o' then
        (case ex_cancel ex (venue w) (lo_venue_order_id o') of
           (ok, v) \<Rightarrow>
             cancel_stale_orders ex self now os
               (keep, cancels + (if ok then 1 else 0),
                w\<lparr>venue := v, orders_tbl := orders_tbl w @ [stale_row self now o' ok]\<rparr>))
      else cancel_stale_orders ex self now os (keep @ [o'], cancels, w))"

text \<open>The outer loop, over \<^verbatim>\<open>list(self.live.items())\<close>.\<close>

fun cancel_stale_tokens ::
  "'x ExchangeBase \<Rightarrow> int \<Rightarrow> (string \<times> LiveOrderState list) list
     \<Rightarrow> 'r OrderManager \<times> int \<times> ('x, 'u) World
     \<Rightarrow> 'r OrderManager \<times> int \<times> ('x, 'u) World" where
  "cancel_stale_tokens ex now [] acc = acc"
| "cancel_stale_tokens ex now ((token_id, lst) # items) (self, cancels, w) =
     (case cancel_stale_orders ex self now lst ([], cancels, w) of
        (keep, cancels', w') \<Rightarrow>
          cancel_stale_tokens ex now items
            (self\<lparr>om_live := AList.update token_id keep (om_live self)\<rparr>, cancels', w'))"

text \<open>\<^verbatim>\<open>cancel_stale\<close>; \<open>now\<close> is the reading of the clock. It returns the count and the new state.\<close>

definition cancel_stale ::
  "'x ExchangeBase \<Rightarrow> int \<Rightarrow> 'r OrderManager \<Rightarrow> ('x, 'u) World
     \<Rightarrow> int \<times> 'r OrderManager \<times> ('x, 'u) World" where
  "cancel_stale ex now self w =
     (case cancel_stale_tokens ex now (om_live self) (self, 0, w) of
        (self', cancels, w') \<Rightarrow> (cancels, self', w'))"

text \<open>
  The stale-cancel step of the control loop (\<^verbatim>\<open>cmd_run\<close> in \<^verbatim>\<open>pmm/cli.py\<close>):
  \<^verbatim>\<open>cancels = om.cancel_stale(); if cancels: cb.record_cancel()\<close>. The two clock readings are
  \<open>now\<close> (order manager) and \<open>now_cb\<close> (breaker).
\<close>

definition cmd_run_cancel_step ::
  "'x ExchangeBase \<Rightarrow> int \<Rightarrow> int \<Rightarrow> 'r OrderManager \<Rightarrow> ('x, 'u) World \<Rightarrow> CircuitBreaker
     \<Rightarrow> 'r OrderManager \<times> ('x, 'u) World \<times> CircuitBreaker" where
  "cmd_run_cancel_step ex now now_cb om w cb =
     (case cancel_stale ex now om w of
        (cancels, om', w') \<Rightarrow> (om', w', if cancels \<noteq> 0 then record_cancel now_cb cb else cb))"

subsection \<open>Place or replace\<close>

definition reprice_row ::
  "'r OrderManager \<Rightarrow> int \<Rightarrow> string \<Rightarrow> string \<Rightarrow> string \<Rightarrow> real \<Rightarrow> LiveOrderState \<Rightarrow> bool
     \<Rightarrow> OrderRow" where
  "reprice_row self now condition_id token_id side price o' ok =
     \<lparr>row_run_id = om_run_id self,
      row_local_order_id = lo_local_order_id o',
      row_venue_order_id = Some (lo_venue_order_id o'),
      row_condition_id = Some condition_id,
      row_token_id = token_id,
      row_side = side,
      row_price = lo_price o',
      row_size = lo_size o',
      row_post_only = post_only_int self,
      row_status = cancel_status ok,
      row_created_ts = lo_created_ts o',
      row_updated_ts = now,
      row_meta_json = [(''reason'', JStr ''reprice''), (''ok'', JBool ok), (''new_price'', JNum price)]\<rparr>"

definition cap_row ::
  "'r OrderManager \<Rightarrow> int \<Rightarrow> string \<Rightarrow> string \<Rightarrow> LiveOrderState \<Rightarrow> bool \<Rightarrow> OrderRow" where
  "cap_row self now condition_id token_id o' ok =
     \<lparr>row_run_id = om_run_id self,
      row_local_order_id = lo_local_order_id o',
      row_venue_order_id = Some (lo_venue_order_id o'),
      row_condition_id = Some condition_id,
      row_token_id = token_id,
      row_side = lo_side o',
      row_price = lo_price o',
      row_size = lo_size o',
      row_post_only = post_only_int self,
      row_status = cancel_status ok,
      row_created_ts = lo_created_ts o',
      row_updated_ts = now,
      row_meta_json = [(''reason'', JStr ''cap''), (''ok'', JBool ok)]\<rparr>"

text \<open>
  The replace loop, over the snapshot \<^verbatim>\<open>list(existing)\<close>; the loop variables are the list
  \<open>existing\<close> (\<^verbatim>\<open>existing.remove(o)\<close> removes the first equal element and is caught when
  there is none) and the world.
\<close>

fun reprice_loop ::
  "'x ExchangeBase \<Rightarrow> 'r OrderManager \<Rightarrow> int \<Rightarrow> string \<Rightarrow> string \<Rightarrow> string \<Rightarrow> real
     \<Rightarrow> LiveOrderState list \<Rightarrow> LiveOrderState list \<times> ('x, 'u) World
     \<Rightarrow> LiveOrderState list \<times> ('x, 'u) World" where
  "reprice_loop ex self now condition_id token_id side price [] acc = acc"
| "reprice_loop ex self now condition_id token_id side price (o' # os) (existing, w) =
     (if lo_side o' = side \<and> price_changed self (lo_price o') price then
        (case ex_cancel ex (venue w) (lo_venue_order_id o') of
           (ok, v) \<Rightarrow>
             reprice_loop ex self now condition_id token_id side price os
               (remove1 o' existing,
                w\<lparr>venue := v,
                  orders_tbl := orders_tbl w
                     @ [reprice_row self now condition_id token_id side price o' ok]\<rparr>))
      else reprice_loop ex self now condition_id token_id side price os (existing, w))"

text \<open>
  The capacity loop \<^verbatim>\<open>while len(existing) >= self.max_orders_per_token\<close>; \<^verbatim>\<open>existing.pop(0)\<close>
  raises \<^verbatim>\<open>IndexError\<close> on the empty list (a capacity of zero or less). The error carries the
  world reached.
\<close>

fun cap_loop ::
  "'x ExchangeBase \<Rightarrow> 'r OrderManager \<Rightarrow> int \<Rightarrow> string \<Rightarrow> string
     \<Rightarrow> LiveOrderState list \<Rightarrow> ('x, 'u) World
     \<Rightarrow> (py_error \<times> ('x, 'u) World) + (LiveOrderState list \<times> ('x, 'u) World)" where
  "cap_loop ex self now condition_id token_id [] w =
     (if 0 \<ge> om_max_orders_per_token self then Inl (IndexError, w) else Inr ([], w))"
| "cap_loop ex self now condition_id token_id (o' # os) w =
     (if int (length (o' # os)) \<ge> om_max_orders_per_token self then
        (case ex_cancel ex (venue w) (lo_venue_order_id o') of
           (ok, v) \<Rightarrow>
             cap_loop ex self now condition_id token_id os
               (w\<lparr>venue := v,
                  orders_tbl := orders_tbl w @ [cap_row self now condition_id token_id o' ok]\<rparr>))
      else Inr (o' # os, w))"

text \<open>The replace and capacity cancellations together: what is left of \<^verbatim>\<open>existing\<close>.\<close>

definition cancel_phase ::
  "'x ExchangeBase \<Rightarrow> 'r OrderManager \<Rightarrow> int \<Rightarrow> string \<Rightarrow> string \<Rightarrow> string \<Rightarrow> real
     \<Rightarrow> ('x, 'u) World
     \<Rightarrow> (py_error \<times> ('x, 'u) World) + (LiveOrderState list \<times> ('x, 'u) World)" where
  "cancel_phase ex self now condition_id token_id side price w =
     (case reprice_loop ex self now condition_id token_id side price (live_get self token_id)
             (live_get self token_id, w) of
        (existing, w1) \<Rightarrow> cap_loop ex self now condition_id token_id existing w1)"

definition local_order_id_of :: "'r OrderManager \<Rightarrow> string \<Rightarrow> int \<Rightarrow> string \<Rightarrow> string" where
  "local_order_id_of self condition_id now side =
     take 8 (om_run_id self) @ ''-'' @ take 6 condition_id @ ''-'' @ str_int now @ ''-'' @ side"

definition place_row ::
  "'r OrderManager \<Rightarrow> int \<Rightarrow> string \<Rightarrow> string \<Rightarrow> string \<Rightarrow> real \<Rightarrow> real
     \<Rightarrow> real option \<Rightarrow> real option \<Rightarrow> PlaceOrderResult \<Rightarrow> OrderRow" where
  "place_row self now condition_id token_id side price size' best_bid best_ask res =
     \<lparr>row_run_id = om_run_id self,
      row_local_order_id = local_order_id_of self condition_id now side,
      row_venue_order_id = res_venue_order_id res,
      row_condition_id = Some condition_id,
      row_token_id = token_id,
      row_side = side,
      row_price = price,
      row_size = size',
      row_post_only = post_only_int self,
      row_status = (if res_success res then ''PLACED'' else ''REJECTED''),
      row_created_ts = now,
      row_updated_ts = now,
      row_meta_json = [(''raw'', jobj_opt (res_raw res)), (''err'', jstr_opt (res_error res)),
                       (''best_bid'', jnum_opt best_bid), (''best_ask'', jnum_opt best_ask)]\<rparr>"

definition new_live_order ::
  "'r OrderManager \<Rightarrow> int \<Rightarrow> string \<Rightarrow> string \<Rightarrow> string \<Rightarrow> real \<Rightarrow> real \<Rightarrow> string
     \<Rightarrow> LiveOrderState" where
  "new_live_order self now condition_id token_id side price size' vid =
     \<lparr>lo_local_order_id = local_order_id_of self condition_id now side,
      lo_venue_order_id = vid,
      lo_token_id = token_id,
      lo_side = side,
      lo_price = price,
      lo_size = size',
      lo_created_ts = now\<rparr>"

text \<open>
  The test \<^verbatim>\<open>res.success and res.venue_order_id\<close>: the identifier is neither \<^verbatim>\<open>None\<close> nor
  the empty string.
\<close>

definition accepted :: "PlaceOrderResult \<Rightarrow> bool" where
  "accepted res =
     (res_success res \<and> (case res_venue_order_id res of None \<Rightarrow> False | Some vid \<Rightarrow> vid \<noteq> []))"

definition blocked_result :: "real option \<Rightarrow> real option \<Rightarrow> PlaceOrderResult" where
  "blocked_result best_bid best_ask =
     \<lparr>res_success = False, res_venue_order_id = None,
      res_error = Some ''post_only_guard_blocked'',
      res_raw = Some [(''best_bid'', jnum_opt best_bid), (''best_ask'', jnum_opt best_ask)]\<rparr>"

text \<open>
  \<^verbatim>\<open>place_or_replace\<close> after the guard, at the guarded price. When the capacity loop raises,
  the list \<^verbatim>\<open>existing\<close> has been emptied; it is the list object held in \<^verbatim>\<open>self.live\<close>
  when the token has an entry there.
\<close>

definition place_guarded ::
  "'x ExchangeBase \<Rightarrow> int \<Rightarrow> 'r OrderManager \<Rightarrow> ('x, 'u) World
     \<Rightarrow> string \<Rightarrow> string \<Rightarrow> string \<Rightarrow> real \<Rightarrow> real \<Rightarrow> real option \<Rightarrow> real option
     \<Rightarrow> (py_error \<times> 'r OrderManager \<times> ('x, 'u) World)
         + (PlaceOrderResult \<times> 'r OrderManager \<times> ('x, 'u) World)" where
  "place_guarded ex now self w condition_id token_id side price size' best_bid best_ask =
     (case cancel_phase ex self now condition_id token_id side price w of
        Inl (e, w1) \<Rightarrow>
          Inl (e,
               (case map_of (om_live self) token_id of
                  None \<Rightarrow> self
                | Some l \<Rightarrow> self\<lparr>om_live := AList.update token_id [] (om_live self)\<rparr>),
               w1)
      | Inr (existing, w1) \<Rightarrow>
          (case ex_place_limit ex (venue w1) token_id side price size' (om_post_only self)
                  [(''condition_id'', JStr condition_id)] of
             (res, v) \<Rightarrow>
               let w2 = w1\<lparr>venue := v,
                           orders_tbl := orders_tbl w1
                             @ [place_row self now condition_id token_id side price size'
                                  best_bid best_ask res]\<rparr>;
                   existing = (if accepted res
                               then existing
                                 @ [new_live_order self now condition_id token_id side price size'
                                      (the (res_venue_order_id res))]
                               else existing)
               in Inr (res, self\<lparr>om_live := AList.update token_id existing (om_live self)\<rparr>, w2)))"

definition place_or_replace ::
  "'x ExchangeBase \<Rightarrow> int \<Rightarrow> 'r OrderManager \<Rightarrow> ('x, 'u) World
     \<Rightarrow> string \<Rightarrow> string \<Rightarrow> string \<Rightarrow> real \<Rightarrow> real \<Rightarrow> real option \<Rightarrow> real option
     \<Rightarrow> (py_error \<times> 'r OrderManager \<times> ('x, 'u) World)
         + (PlaceOrderResult \<times> 'r OrderManager \<times> ('x, 'u) World)" where
  "place_or_replace ex now self w condition_id token_id side price size' best_bid best_ask =
     (let side = upper side
      in case guard_post_only self side price best_bid best_ask of
           None \<Rightarrow> Inr (blocked_result best_bid best_ask, self, w)
         | Some guarded_price \<Rightarrow>
             place_guarded ex now self w condition_id token_id side guarded_price size'
               best_bid best_ask)"

text \<open>
  The placement step of the control loop (\<^verbatim>\<open>cmd_run\<close>): a result whose \<^verbatim>\<open>raw\<close> is a
  non-empty dictionary with \<^verbatim>\<open>action == "SKIP"\<close> is not counted by the breaker.
\<close>

definition is_skip :: "PlaceOrderResult \<Rightarrow> bool" where
  "is_skip res =
     (case res_raw res of
        None \<Rightarrow> False
      | Some d \<Rightarrow> d \<noteq> [] \<and> map_of d ''action'' = Some (JStr ''SKIP''))"

definition cmd_run_place_step ::
  "'x ExchangeBase \<Rightarrow> int \<Rightarrow> 'r OrderManager \<Rightarrow> ('x, 'u) World \<Rightarrow> CircuitBreaker
     \<Rightarrow> string \<Rightarrow> string \<Rightarrow> Quote \<Rightarrow> real option \<Rightarrow> real option
     \<Rightarrow> (py_error \<times> 'r OrderManager \<times> ('x, 'u) World)
         + (PlaceOrderResult \<times> 'r OrderManager \<times> ('x, 'u) World \<times> CircuitBreaker)" where
  "cmd_run_place_step ex now om w cb condition_id token_id q best_bid best_ask =
     (case place_or_replace ex now om w condition_id token_id (q_side q) (q_price q) (q_size q)
             best_bid best_ask of
        Inl e \<Rightarrow> Inl e
      | Inr (res, om', w') \<Rightarrow>
          Inr (res, om', w', if \<not> is_skip res then record_place (res_success res) cb else cb))"

subsection \<open>Example values\<close>

text \<open>
  Concrete values on which the theorems below are evaluated: a venue adapter that answers
  every placement with the same result and every cancel with the same flag, an empty world,
  an order manager with a tick of 0.01 and room for two orders, and a live BUY order.
\<close>

definition fixed_venue :: "PlaceOrderResult \<Rightarrow> bool \<Rightarrow> unit ExchangeBase" where
  "fixed_venue res ok =
     \<lparr>ex_place_limit = (\<lambda>v token_id side price size' post_only meta. (res, v)),
      ex_cancel = (\<lambda>v venue_order_id. (ok, v)),
      ex_is_paper = True\<rparr>"

definition empty_world :: "(unit, unit) World" where
  "empty_world = \<lparr>venue = (), uuid_src = (), orders_tbl = [], trades_tbl = []\<rparr>"

definition demo_om :: "unit OrderManager" where
  "demo_om =
     \<lparr>om_run_id = ''run-0001'', om_max_orders_per_token = 2, om_cancel_reprice_sec = 10,
      om_post_only = True, om_tick_size = Some (1 / 100), om_live = [], om_rng = ()\<rparr>"

definition demo_order :: "string \<Rightarrow> string \<Rightarrow> real \<Rightarrow> int \<Rightarrow> LiveOrderState" where
  "demo_order vid side price created =
     \<lparr>lo_local_order_id = ''L-'' @ vid, lo_venue_order_id = vid, lo_token_id = ''T'',
      lo_side = side, lo_price = price, lo_size = 10, lo_created_ts = created\<rparr>"

definition venue_ok :: "string \<Rightarrow> PlaceOrderResult" where
  "venue_ok vid =
     \<lparr>res_success = True, res_venue_order_id = Some vid, res_error = None, res_raw = None\<rparr>"

definition demo_om_buy :: "unit OrderManager" where
  "demo_om_buy = demo_om\<lparr>om_live := [(''T'', [demo_order ''v1'' ''BUY'' (1 / 2) 95])]\<rparr>"

definition demo_cfg :: CircuitConfig where
  "demo_cfg = \<lparr>cfg_max_reject_rate = 3 / 10, cfg_window_sec = 300,
                cfg_max_cancels_per_min = 120, cfg_max_errors = 10\<rparr>"

subsection \<open>Stale cancel, described\<close>

text \<open>
  For the statement of what \<^verbatim>\<open>cancel_stale\<close> does: the stale live orders in the order
  of the loops, and the venue's answers to cancelling a list of orders one after the other.
\<close>

definition stale_orders :: "'r OrderManager \<Rightarrow> int \<Rightarrow> LiveOrderState list" where
  "stale_orders self now = filter (stale self now) (concat (map snd (om_live self)))"

fun cancel_all :: "'x ExchangeBase \<Rightarrow> 'x \<Rightarrow> string list \<Rightarrow> bool list \<times> 'x" where
  "cancel_all ex v [] = ([], v)"
| "cancel_all ex v (i # is) =
     (case ex_cancel ex v i of
        (ok, v1) \<Rightarrow> (case cancel_all ex v1 is of (oks, v2) \<Rightarrow> (ok # oks, v2)))"

definition demo_om_two :: "unit OrderManager" where
  "demo_om_two =
     demo_om\<lparr>om_live := [(''T'', [demo_order ''v1'' ''BUY'' (1 / 2) 0,
                                  demo_order ''v2'' ''SELL'' (6 / 10) 1,
                                  demo_order ''v3'' ''BUY'' (4 / 10) 95])]\<rparr>"

section \<open>Paper fill simulator: \<^verbatim>\<open>OrderManager.simulate_fills\<close>\<close>

subsection \<open>Library parameters, configuration, seed\<close>

text \<open>
  The generator \<^verbatim>\<open>random.Random\<close> of Python's library is a parameter: its state has any
  type \<open>'r\<close>, \<open>rnd_seed\<close> is \<^verbatim>\<open>random.Random(seed)\<close>, and each draw returns the value and
  the next state.
\<close>

record 'r RandomLib =
  rnd_seed :: "int \<Rightarrow> 'r"
  rnd_random :: "'r \<Rightarrow> real \<times> 'r"
  rnd_gauss :: "real \<Rightarrow> real \<Rightarrow> 'r \<Rightarrow> real \<times> 'r"
  rnd_betavariate :: "real \<Rightarrow> real \<Rightarrow> 'r \<Rightarrow> real \<times> 'r"

text \<open>
  The environment variables that \<^verbatim>\<open>simulate_fills\<close> reads, as the values it parses from them:
  \<^verbatim>\<open>PMM_PAPER_SIM_ENABLE\<close> and \<^verbatim>\<open>PMM_PAPER_PARTIAL_FILL\<close> compared with \<^verbatim>\<open>"true"\<close>,
  \<^verbatim>\<open>PMM_PAPER_SPREAD_MODE\<close> in lower case, and the numbers.
\<close>

record SimEnv =
  env_sim_enable :: bool
  env_fill_intensity :: real
  env_spread_mode :: string
  env_spread_k :: real
  env_markout_sigma_bps :: real
  env_partial_fill :: bool
  env_full_fill_prob :: real
  env_partial_beta_a :: real
  env_partial_beta_b :: real
  env_partial_min_frac :: real
  env_partial_max_frac :: real

text \<open>
  \<^verbatim>\<open>_seed_from_run_id\<close>. The parser \<^verbatim>\<open>uuid.UUID(s).int\<close> of Python's library is the parameter
  \<open>uuid_int\<close> (\<open>None\<close> when it raises); it returns a number from 0. On such a number
  \<^verbatim>\<open>& 0xFFFFFFFF\<close> is the remainder modulo \<open>2 ^ 32\<close>. Characters are taken as their codes.
\<close>

definition seed_from_run_id :: "(string \<Rightarrow> int option) \<Rightarrow> string \<Rightarrow> int" where
  "seed_from_run_id uuid_int run_id =
     (case uuid_int run_id of
        Some n \<Rightarrow> n mod 2 ^ 32
      | None \<Rightarrow>
          let s = (if run_id = [] then ''pmm'' else run_id)
          in sum_list (map (\<lambda>(i, ch). (int i + 1) * int (of_char ch)) (enumerate 0 s)) mod 2 ^ 32)"

text \<open>The constructor \<^verbatim>\<open>OrderManager.__init__\<close>.\<close>

definition OrderManager_init ::
  "'r RandomLib \<Rightarrow> (string \<Rightarrow> int option) \<Rightarrow> string \<Rightarrow> int \<Rightarrow> real \<Rightarrow> bool \<Rightarrow> real option
     \<Rightarrow> 'r OrderManager" where
  "OrderManager_init lib uuid_int run_id max_orders_per_token cancel_reprice_sec post_only tick_size =
     \<lparr>om_run_id = run_id,
      om_max_orders_per_token = max_orders_per_token,
      om_cancel_reprice_sec = cancel_reprice_sec,
      om_post_only = post_only,
      om_tick_size = (case tick_size of
                        None \<Rightarrow> None
                      | Some t \<Rightarrow> if t \<noteq> 0 \<and> t > 0 then Some t else None),
      om_live = [],
      om_rng = rnd_seed lib (seed_from_run_id uuid_int run_id)\<rparr>"

subsection \<open>One order\<close>

record SimFillStats =
  sf_fills :: int
  sf_markout_sum :: real
  sf_realized_spread_sum :: real

text \<open>The keyword arguments of one call of \<^verbatim>\<open>simulate_fills\<close>.\<close>

record SimStep =
  ss_condition_id :: string
  ss_token_id :: string
  ss_midpoint :: "real option"
  ss_best_bid :: "real option"
  ss_best_ask :: "real option"
  ss_dt_sec :: real
  ss_ts :: "int option"
  ss_intensity_override :: "real option"
  ss_depth_top :: "real option"

definition d_ticks_of :: "string \<Rightarrow> real \<Rightarrow> real \<Rightarrow> real option \<Rightarrow> real option \<Rightarrow> real" where
  "d_ticks_of side px tick best_bid best_ask =
     (case (if side = ''BUY'' then best_bid else None) of
        Some b \<Rightarrow> \<bar>px - b\<bar> / max (1 / 10 ^ 9) tick
      | None \<Rightarrow>
          (case (if side = ''SELL'' then best_ask else None) of
             Some a \<Rightarrow> \<bar>px - a\<bar> / max (1 / 10 ^ 9) tick
           | None \<Rightarrow> 9 * 10 ^ 9))"

definition competitive_of :: "real \<Rightarrow> real" where
  "competitive_of d_ticks =
     (if d_ticks \<le> 0.5 then 1.0
      else if d_ticks \<le> 1.5 then 0.6
      else if d_ticks \<le> 2.5 then 0.35
      else if d_ticks \<le> 4.5 then 0.22
      else 0.15)"

definition edge_factor_of :: "real \<Rightarrow> real option \<Rightarrow> real" where
  "edge_factor_of px mid =
     (case mid of
        None \<Rightarrow> 1
      | Some m \<Rightarrow>
          if m > 1 / 10 ^ 9
          then (let edge_bps = \<bar>px - m\<bar> / m * 10000 in 1 / (1 + edge_bps / 80))
          else 1)"

definition spread_ticks_of :: "real \<Rightarrow> real option \<Rightarrow> real option \<Rightarrow> real option" where
  "spread_ticks_of tick best_bid best_ask =
     (case best_bid of
        None \<Rightarrow> None
      | Some b \<Rightarrow>
          (case best_ask of
             None \<Rightarrow> None
           | Some a \<Rightarrow> Some (max 0 ((a - b) / max (1 / 10 ^ 9) tick))))"

text \<open>
  The spread factor; the division \<^verbatim>\<open>1.0 / (1.0 + k * max(0.0, spread_ticks - 1.0))\<close> raises
  \<^verbatim>\<open>ZeroDivisionError\<close> when the divisor is zero (a negative \<open>k\<close>).
\<close>

definition spread_factor_of :: "SimEnv \<Rightarrow> real option \<Rightarrow> py_error + real" where
  "spread_factor_of env spread_ticks =
     (case spread_ticks of
        None \<Rightarrow> Inr 1
      | Some st \<Rightarrow>
          if env_spread_mode env = ''factor''
          then (let d = 1 + env_spread_k env * max 0 (st - 1)
                in if d = 0 then Inl ZeroDivisionError else Inr (1 / d))
          else Inr 1)"

text \<open>
  What the loop body computes for one filled order: the locals written to the rows.
\<close>

record FillCalc =
  fc_p_fill :: real
  fc_competitive :: real
  fc_edge_factor :: real
  fc_spread_factor :: real
  fc_spread_ticks :: "real option"
  fc_future_mid :: "real option"
  fc_realized_spread :: real
  fc_fill_size :: real
  fc_new_remaining :: real
  fc_status :: string
  fc_markout :: real

text \<open>
  The draw of the fill fraction: the generator is not read when partial fills are off
  (\<^verbatim>\<open>(not allow_partial) or (self._rng.random() < full_prob)\<close>).
\<close>

definition draw_frac :: "'r RandomLib \<Rightarrow> SimEnv \<Rightarrow> 'r \<Rightarrow> real \<times> 'r" where
  "draw_frac lib env rng =
     (if \<not> env_partial_fill env then (1, rng)
      else
        (case rnd_random lib rng of
           (u, rng1) \<Rightarrow>
             if u < env_full_fill_prob env then (1, rng1)
             else
               (case rnd_betavariate lib (max 0.1 (env_partial_beta_a env))
                       (max 0.1 (env_partial_beta_b env)) rng1 of
                  (raw, rng2) \<Rightarrow>
                    (env_partial_min_frac env
                       + (env_partial_max_frac env - env_partial_min_frac env) * raw,
                     rng2))))"

text \<open>
  The body of the loop for an order with \<open>remaining > 1e-9\<close>, up to the rows: \<open>None\<close> when
  the order is kept without a fill (\<^verbatim>\<open>self._rng.random() >= p_fill\<close>).
\<close>

definition fill_order ::
  "'r RandomLib \<Rightarrow> SimEnv \<Rightarrow> real \<Rightarrow> real option \<Rightarrow> real \<Rightarrow> SimStep \<Rightarrow> LiveOrderState \<Rightarrow> 'r
     \<Rightarrow> py_error + (FillCalc option \<times> 'r)" where
  "fill_order lib env tick mid base_p step o' rng =
     (let side = upper (lo_side o');
          px = lo_price o';
          remaining = lo_size o';
          competitive = competitive_of
                          (d_ticks_of side px tick (ss_best_bid step) (ss_best_ask step));
          edge_factor = edge_factor_of px mid;
          spread_ticks = spread_ticks_of tick (ss_best_bid step) (ss_best_ask step)
      in case spread_factor_of env spread_ticks of
           Inl e \<Rightarrow> Inl e
         | Inr spread_factor \<Rightarrow>
             let p_fill = max 0 (min 0.95 (base_p * competitive * edge_factor * spread_factor))
             in case rnd_random lib rng of
                  (u, rng1) \<Rightarrow>
                    if u \<ge> p_fill then Inr (None, rng1)
                    else
                      (case rnd_gauss lib 0 (env_markout_sigma_bps env / 10000) rng1 of
                         (eps, rng2) \<Rightarrow>
                           let future_mid =
                                 (case mid of
                                    None \<Rightarrow> None
                                  | Some m \<Rightarrow> Some (max 0.001 (min 0.999 (m * (1 + eps)))));
                               realized_spread =
                                 (case mid of
                                    None \<Rightarrow> 0
                                  | Some m \<Rightarrow> if side = ''BUY'' then (m - px) * 1 else (px - m) * 1)
                           in case draw_frac lib env rng2 of
                                (frac', rng3) \<Rightarrow>
                                  let fill_size = min (max (1 / 10 ^ 6) (remaining * frac')) remaining;
                                      new_remaining = remaining - fill_size;
                                      status = (if new_remaining \<le> 1 / 10 ^ 9
                                                then ''FILLED'' else ''PARTIAL'');
                                      markout =
                                        (case future_mid of
                                           None \<Rightarrow> 0
                                         | Some fm \<Rightarrow>
                                             if side = ''BUY'' then (fm - px) * fill_size
                                             else (px - fm) * fill_size)
                                  in Inr (Some \<lparr>fc_p_fill = p_fill,
                                                 fc_competitive = competitive,
                                                 fc_edge_factor = edge_factor,
                                                 fc_spread_factor = spread_factor,
                                                 fc_spread_ticks = spread_ticks,
                                                 fc_future_mid = future_mid,
                                                 fc_realized_spread = realized_spread,
                                                 fc_fill_size = fill_size,
                                                 fc_new_remaining = new_remaining,
                                                 fc_status = status,
                                                 fc_markout = markout\<rparr>,
                                          rng3)))"

subsection \<open>The loop over the live orders\<close>

definition sim_trade_row ::
  "'r OrderManager \<Rightarrow> SimEnv \<Rightarrow> SimStep \<Rightarrow> int \<Rightarrow> real \<Rightarrow> real option \<Rightarrow> LiveOrderState
     \<Rightarrow> FillCalc \<Rightarrow> string \<Rightarrow> TradeRow" where
  "sim_trade_row self env step now intensity mid o' fc trade_id =
     \<lparr>tr_run_id = om_run_id self,
      tr_trade_id = trade_id,
      tr_venue_order_id = lo_venue_order_id o',
      tr_condition_id = ss_condition_id step,
      tr_token_id = ss_token_id step,
      tr_side = upper (lo_side o'),
      tr_price = lo_price o',
      tr_size = fc_fill_size fc,
      tr_status = fc_status fc,
      tr_ts = now,
      tr_raw_json =
        [(''sim'', JBool True),
         (''p_fill'', JNum (fc_p_fill fc)),
         (''competitive'', JNum (fc_competitive fc)),
         (''edge_factor'', JNum (fc_edge_factor fc)),
         (''spread_factor'', JNum (fc_spread_factor fc)),
         (''spread_ticks'', jnum_opt (fc_spread_ticks fc)),
         (''best_bid'', jnum_opt (ss_best_bid step)),
         (''best_ask'', jnum_opt (ss_best_ask step)),
         (''mid'', jnum_opt mid),
         (''future_mid'', jnum_opt (fc_future_mid fc)),
         (''markout'', JNum (fc_markout fc)),
         (''realized_spread'', JNum (fc_realized_spread fc * fc_fill_size fc)),
         (''markout_sigma_bps'', JNum (env_markout_sigma_bps env)),
         (''intensity_used'', JNum intensity),
         (''depth_top'', jnum_opt (ss_depth_top step))]\<rparr>"

definition sim_order_row ::
  "'r OrderManager \<Rightarrow> SimStep \<Rightarrow> int \<Rightarrow> LiveOrderState \<Rightarrow> FillCalc \<Rightarrow> OrderRow" where
  "sim_order_row self step now o' fc =
     \<lparr>row_run_id = om_run_id self,
      row_local_order_id = lo_local_order_id o',
      row_venue_order_id = Some (lo_venue_order_id o'),
      row_condition_id = Some (ss_condition_id step),
      row_token_id = ss_token_id step,
      row_side = upper (lo_side o'),
      row_price = lo_price o',
      row_size = max 0 (fc_new_remaining fc),
      row_post_only = post_only_int self,
      row_status = fc_status fc,
      row_created_ts = lo_created_ts o',
      row_updated_ts = now,
      row_meta_json = [(''reason'', JStr ''paper_sim_fill''),
                       (''fill_size'', JNum (fc_fill_size fc)),
                       (''remaining'', JNum (fc_new_remaining fc))]\<rparr>"

definition add_fill :: "SimFillStats \<Rightarrow> FillCalc \<Rightarrow> SimFillStats" where
  "add_fill out fc =
     \<lparr>sf_fills = sf_fills out + 1,
      sf_markout_sum = sf_markout_sum out + fc_markout fc,
      sf_realized_spread_sum =
        sf_realized_spread_sum out + fc_realized_spread fc * fc_fill_size fc\<rparr>"

text \<open>
  The loop \<^verbatim>\<open>for o in lst\<close>. Its variables are \<open>keep\<close>, \<open>out\<close>, the generator and the world;
  \<open>seen\<close> is the part of the list gone through, with the sizes as \<^verbatim>\<open>o.size = ...\<close> has left
  them (the orders are the objects held in \<^verbatim>\<open>self.live\<close>). \<open>uuid4\<close> is \<^verbatim>\<open>uuid.uuid4()\<close> as text.
  An order with \<open>remaining \<le> 1e-9\<close> is passed over and not kept.
\<close>

fun sim_orders ::
  "'r RandomLib \<Rightarrow> ('u \<Rightarrow> string \<times> 'u) \<Rightarrow> SimEnv \<Rightarrow> 'r OrderManager \<Rightarrow> SimStep \<Rightarrow> int
     \<Rightarrow> real \<Rightarrow> real option \<Rightarrow> real \<Rightarrow> real \<Rightarrow> LiveOrderState list
     \<Rightarrow> LiveOrderState list \<times> LiveOrderState list \<times> SimFillStats \<times> 'r \<times> ('x, 'u) World
     \<Rightarrow> (py_error \<times> LiveOrderState list \<times> 'r \<times> ('x, 'u) World)
         + (LiveOrderState list \<times> SimFillStats \<times> 'r \<times> ('x, 'u) World)" where
  "sim_orders lib uuid4 env self step now tick mid intensity base_p [] (seen, keep, out, rng, w) =
     Inr (keep, out, rng, w)"
| "sim_orders lib uuid4 env self step now tick mid intensity base_p (o' # os)
     (seen, keep, out, rng, w) =
     (if lo_size o' \<le> 1 / 10 ^ 9
      then sim_orders lib uuid4 env self step now tick mid intensity base_p os
             (seen @ [o'], keep, out, rng, w)
      else
        (case fill_order lib env tick mid base_p step o' rng of
           Inl e \<Rightarrow> Inl (e, seen @ o' # os, rng, w)
         | Inr (None, rng1) \<Rightarrow>
             sim_orders lib uuid4 env self step now tick mid intensity base_p os
               (seen @ [o'], keep @ [o'], out, rng1, w)
         | Inr (Some fc, rng1) \<Rightarrow>
             (case uuid4 (uuid_src w) of
                (uid, u1) \<Rightarrow>
                  let w1 = w\<lparr>uuid_src := u1,
                             trades_tbl := trades_tbl w
                               @ [sim_trade_row self env step now intensity mid o' fc
                                    (''paper-'' @ uid)],
                             orders_tbl := orders_tbl w @ [sim_order_row self step now o' fc]\<rparr>;
                      out1 = add_fill out fc;
                      o1 = o'\<lparr>lo_size := fc_new_remaining fc\<rparr>
                  in if fc_status fc = ''PARTIAL''
                     then sim_orders lib uuid4 env self step now tick mid intensity base_p os
                            (seen @ [o1], keep @ [o1], out1, rng1, w1)
                     else sim_orders lib uuid4 env self step now tick mid intensity base_p os
                            (seen @ [o'], keep, out1, rng1, w1))))"

definition empty_stats :: SimFillStats where
  "empty_stats = \<lparr>sf_fills = 0, sf_markout_sum = 0, sf_realized_spread_sum = 0\<rparr>"

text \<open>
  \<^verbatim>\<open>simulate_fills\<close>; \<open>clock\<close> is the reading of \<^verbatim>\<open>self._now()\<close>, used when \<^verbatim>\<open>ts\<close> is
  \<^verbatim>\<open>None\<close>.
\<close>

definition simulate_fills ::
  "'r RandomLib \<Rightarrow> ('u \<Rightarrow> string \<times> 'u) \<Rightarrow> SimEnv \<Rightarrow> 'x ExchangeBase \<Rightarrow> int
     \<Rightarrow> 'r OrderManager \<Rightarrow> ('x, 'u) World \<Rightarrow> SimStep
     \<Rightarrow> (py_error \<times> 'r OrderManager \<times> ('x, 'u) World)
         + (SimFillStats \<times> 'r OrderManager \<times> ('x, 'u) World)" where
  "simulate_fills lib uuid4 env ex clock self w step =
     (if \<not> ex_is_paper ex then Inr (empty_stats, self, w)
      else if \<not> env_sim_enable env then Inr (empty_stats, self, w)
      else
        let token_id = ss_token_id step;
            now = (case ss_ts step of None \<Rightarrow> clock | Some t \<Rightarrow> t);
            lst = live_get self token_id
        in if lst = [] then Inr (empty_stats, self, w)
           else
             let tick = tick_or self (1 / 10 ^ 3);
                 mid = ss_midpoint step;
                 dt = max 0.1 (ss_dt_sec step);
                 intensity = (case ss_intensity_override step of
                                None \<Rightarrow> env_fill_intensity env
                              | Some i \<Rightarrow> i);
                 base_p = 1 - exp (- max 0 intensity * dt)
             in case sim_orders lib uuid4 env self step now tick mid intensity base_p lst
                       ([], [], empty_stats, om_rng self, w) of
                  Inl (e, seen, rng, w1) \<Rightarrow>
                    Inl (e,
                         self\<lparr>om_live := AList.update token_id seen (om_live self),
                              om_rng := rng\<rparr>,
                         w1)
                | Inr (keep, out, rng, w1) \<Rightarrow>
                    Inr (out,
                         self\<lparr>om_live := AList.update token_id keep (om_live self),
                              om_rng := rng\<rparr>,
                         w1))"

subsection \<open>Runs of the simulator\<close>

text \<open>
  A run: the calls of \<^verbatim>\<open>simulate_fills\<close> for a list of steps, one after the other on the same
  order manager, until one raises. Call number \<open>k\<close> reads the clock as \<open>clk k\<close>. The run
  returns the statistics of each call.
\<close>

fun sim_run ::
  "'r RandomLib \<Rightarrow> ('u \<Rightarrow> string \<times> 'u) \<Rightarrow> SimEnv \<Rightarrow> 'x ExchangeBase \<Rightarrow> (nat \<Rightarrow> int) \<Rightarrow> nat
     \<Rightarrow> SimStep list \<Rightarrow> SimFillStats list \<Rightarrow> 'r OrderManager \<Rightarrow> ('x, 'u) World
     \<Rightarrow> (py_error \<times> 'r OrderManager \<times> ('x, 'u) World)
         + (SimFillStats list \<times> 'r OrderManager \<times> ('x, 'u) World)" where
  "sim_run lib uuid4 env ex clk k [] outs self w = Inr (outs, self, w)"
| "sim_run lib uuid4 env ex clk k (step # steps) outs self w =
     (case simulate_fills lib uuid4 env ex (clk k) self w step of
        Inl x \<Rightarrow> Inl x
      | Inr (out, self1, w1) \<Rightarrow> sim_run lib uuid4 env ex clk (Suc k) steps (outs @ [out]) self1 w1)"

text \<open>
  What is compared between two runs: for each fill, in order, the order's identity with
  \<open>(fill_size, status, price)\<close>; the error if any, the statistics and the order manager
  (live orders and generator) at the end. \<open>n\<close> is the number of trade rows before the run.
\<close>

definition fill_outcome :: "TradeRow \<Rightarrow> string \<times> real \<times> string \<times> real" where
  "fill_outcome t = (tr_venue_order_id t, tr_size t, tr_status t, tr_price t)"

definition fills_since :: "nat \<Rightarrow> ('x, 'u) World \<Rightarrow> (string \<times> real \<times> string \<times> real) list" where
  "fills_since n w = map fill_outcome (drop n (trades_tbl w))"

definition loop_view ::
  "nat \<Rightarrow> (py_error \<times> LiveOrderState list \<times> 'r \<times> ('x, 'u) World)
         + (LiveOrderState list \<times> SimFillStats \<times> 'r \<times> ('x, 'u) World)
     \<Rightarrow> (py_error \<times> LiveOrderState list \<times> 'r \<times> (string \<times> real \<times> string \<times> real) list)
         + (LiveOrderState list \<times> SimFillStats \<times> 'r \<times> (string \<times> real \<times> string \<times> real) list)" where
  "loop_view n r =
     (case r of
        Inl (e, seen, rng, w) \<Rightarrow> Inl (e, seen, rng, fills_since n w)
      | Inr (keep, out, rng, w) \<Rightarrow> Inr (keep, out, rng, fills_since n w))"

definition run_view ::
  "nat \<Rightarrow> (py_error \<times> 'r OrderManager \<times> ('x, 'u) World) + ('a \<times> 'r OrderManager \<times> ('x, 'u) World)
     \<Rightarrow> (py_error \<times> 'r OrderManager \<times> (string \<times> real \<times> string \<times> real) list)
         + ('a \<times> 'r OrderManager \<times> (string \<times> real \<times> string \<times> real) list)" where
  "run_view n r =
     (case r of
        Inl (e, self, w) \<Rightarrow> Inl (e, self, fills_since n w)
      | Inr (a, self, w) \<Rightarrow> Inr (a, self, fills_since n w))"

section \<open>Capital allocator: \<^verbatim>\<open>pmm/strategy/allocator.py\<close>\<close>

record MarketFeatures =
  mf_condition_id :: string
  mf_liquidity_num :: real
  mf_fills :: int
  mf_quotes :: int
  mf_markout_sum :: real
  mf_realized_spread_sum :: real

record CapitalAllocator =
  ca_total_budget_usd :: real
  ca_min_per_market :: real
  ca_max_per_market :: real
  ca_liquidity_power :: real
  ca_quality_k :: real

text \<open>
  The weight of one market (the body of the first loop). The base \<open>liq\<close> is at least
  \<open>1e-9\<close>, so \<^verbatim>\<open>liq ** power\<close> is the real power. On floats \<^verbatim>\<open>liq ** power\<close> and
  \<^verbatim>\<open>math.exp\<close> raise \<^verbatim>\<open>OverflowError\<close> when the result is beyond the largest float,
  \<open>float_max\<close>; the other operations do not raise.
\<close>

definition float_max :: real where
  "float_max = (2 ^ 53 - 1) * 2 ^ 971"

definition weight :: "CapitalAllocator \<Rightarrow> MarketFeatures \<Rightarrow> py_error + real" where
  "weight self f =
     (let liq = max (1 / 10 ^ 9) (mf_liquidity_num f)
      in if liq powr ca_liquidity_power self > float_max then Inl OverflowError
         else
           let base = liq powr ca_liquidity_power self;
               fill_rate = real_of_int (mf_fills f) / real_of_int (max 1 (mf_quotes f));
               avg_markout = mf_markout_sum f / real_of_int (max 1 (mf_fills f));
               adverse = max 0 (- avg_markout)
           in if exp (- ca_quality_k self * adverse) > float_max then Inl OverflowError
              else
                let quality = exp (- ca_quality_k self * adverse)
                                * (0.5 + 0.5 * min 1 (fill_rate * 20))
                in Inr (base * max 0.05 (min 1.5 quality)))"

text \<open>The first loop: the list \<^verbatim>\<open>w_raw\<close>, or the first error raised.\<close>

fun weights :: "CapitalAllocator \<Rightarrow> MarketFeatures list \<Rightarrow> py_error + real list" where
  "weights self [] = Inr []"
| "weights self (f # fs) =
     (case weight self f of
        Inl e \<Rightarrow> Inl e
      | Inr w \<Rightarrow> (case weights self fs of Inl e \<Rightarrow> Inl e | Inr ws \<Rightarrow> Inr (w # ws)))"

text \<open>
  The dictionaries \<^verbatim>\<open>alloc\<close> and \<^verbatim>\<open>fixed\<close> are association lists in insertion order.
  \<open>dget\<close> is \<^verbatim>\<open>alloc[cid]\<close>; every key read is the identifier of a feature, which
  \<^verbatim>\<open>alloc\<close> holds from the first pass on.
\<close>

definition dget :: "(string \<times> real) list \<Rightarrow> string \<Rightarrow> real" where
  "dget d k = (case map_of d k of None \<Rightarrow> 0 | Some v \<Rightarrow> v)"

text \<open>First pass: \<^verbatim>\<open>{f.condition_id: B * (w_raw[i] / s) for i, f in enumerate(feats)}\<close>.\<close>

fun first_pass ::
  "real \<Rightarrow> real \<Rightarrow> (MarketFeatures \<times> real) list \<Rightarrow> (string \<times> real) list
     \<Rightarrow> (string \<times> real) list" where
  "first_pass B s [] alloc = alloc"
| "first_pass B s ((f, w) # rest) alloc =
     first_pass B s rest (AList.update (mf_condition_id f) (B * (w / s)) alloc)"

text \<open>
  The loop that enforces the minimum. The set \<^verbatim>\<open>remaining_indices\<close> is the list of the
  indices still in it, in ascending order, each with its feature and weight.
\<close>

fun enforce_min ::
  "real \<Rightarrow> (string \<times> real) list \<Rightarrow> (nat \<times> MarketFeatures \<times> real) list
     \<Rightarrow> (string \<times> real) list \<times> real \<times> (nat \<times> MarketFeatures \<times> real) list
     \<Rightarrow> (string \<times> real) list \<times> real \<times> (nat \<times> MarketFeatures \<times> real) list" where
  "enforce_min mn alloc [] acc = acc"
| "enforce_min mn alloc ((i, f, w) # rest) (fixed, remaining, remaining_indices) =
     (if dget alloc (mf_condition_id f) < mn
      then enforce_min mn alloc rest
             (AList.update (mf_condition_id f) mn fixed, remaining - mn,
              filter (\<lambda>(j, g, u). j \<noteq> i) remaining_indices)
      else enforce_min mn alloc rest (fixed, remaining, remaining_indices))"

text \<open>Re-allocation of what remains over the indices left.\<close>

fun reallocate ::
  "real \<Rightarrow> real \<Rightarrow> (nat \<times> MarketFeatures \<times> real) list \<Rightarrow> (string \<times> real) list
     \<Rightarrow> (string \<times> real) list" where
  "reallocate remaining s2 [] alloc = alloc"
| "reallocate remaining s2 ((i, f, w) # rest) alloc =
     reallocate remaining s2 rest
       (AList.update (mf_condition_id f) (remaining * (w / max (1 / 10 ^ 12) s2)) alloc)"

text \<open>The loop that enforces the maximum, collecting the overflow and the keys under it.\<close>

fun enforce_max ::
  "real \<Rightarrow> MarketFeatures list \<Rightarrow> (string \<times> real) list \<times> real \<times> string list
     \<Rightarrow> (string \<times> real) list \<times> real \<times> string list" where
  "enforce_max mx [] acc = acc"
| "enforce_max mx (f # rest) (alloc, overflow, under') =
     (let v = dget alloc (mf_condition_id f)
      in if v > mx
         then enforce_max mx rest
                (AList.update (mf_condition_id f) mx alloc, overflow + (v - mx), under')
         else enforce_max mx rest (alloc, overflow, under' @ [mf_condition_id f]))"

fun spread_overflow ::
  "real \<Rightarrow> real \<Rightarrow> string list \<Rightarrow> (string \<times> real) list \<Rightarrow> (string \<times> real) list" where
  "spread_overflow mx add [] alloc = alloc"
| "spread_overflow mx add (cid # rest) alloc =
     spread_overflow mx add rest (AList.update cid (min mx (dget alloc cid + add)) alloc)"

text \<open>\<^verbatim>\<open>alloc.update(fixed)\<close>\<close>

fun dict_update :: "(string \<times> real) list \<Rightarrow> (string \<times> real) list \<Rightarrow> (string \<times> real) list" where
  "dict_update alloc [] = alloc"
| "dict_update alloc ((k, v) # rest) = dict_update (AList.update k v alloc) rest"

text \<open>\<^verbatim>\<open>allocate\<close> after the first loop, from \<^verbatim>\<open>s = sum(w_raw)\<close> on.\<close>

definition allocate_caps ::
  "CapitalAllocator \<Rightarrow> MarketFeatures list \<Rightarrow> real list \<Rightarrow> (string \<times> real) list" where
  "allocate_caps self feats w_raw0 =
     (let s = sum_list w_raw0;
          w_raw = (if s \<le> 0 then replicate (length feats) 1 else w_raw0);
          s = (if s \<le> 0 then real (length feats) else s);
          alloc = first_pass (ca_total_budget_usd self) s (zip feats w_raw) []
      in case enforce_min (ca_min_per_market self) alloc (enumerate 0 (zip feats w_raw))
                ([], ca_total_budget_usd self, enumerate 0 (zip feats w_raw)) of
           (fixed, remaining, remaining_indices) \<Rightarrow>
             if remaining \<le> 0
             then map (\<lambda>(cid, v). (cid, min (ca_max_per_market self) v)) fixed
             else
               let alloc = (if remaining_indices \<noteq> []
                            then reallocate remaining
                                   (sum_list (map (\<lambda>(i, f, w). w) remaining_indices))
                                   remaining_indices alloc
                            else alloc)
               in case enforce_max (ca_max_per_market self) feats (alloc, 0, []) of
                    (alloc, overflow, under') \<Rightarrow>
                      let alloc = (if overflow > 0 \<and> under' \<noteq> []
                                   then spread_overflow (ca_max_per_market self)
                                          (overflow / real (length under')) under' alloc
                                   else alloc)
                      in dict_update alloc fixed)"

definition allocate ::
  "CapitalAllocator \<Rightarrow> MarketFeatures list \<Rightarrow> py_error + (string \<times> real) list" where
  "allocate self feats =
     (if feats = [] then Inr []
      else
        (case weights self feats of
           Inl e \<Rightarrow> Inl e
         | Inr w_raw \<Rightarrow> Inr (allocate_caps self feats w_raw)))"

text \<open>
  For the statement of what \<^verbatim>\<open>allocate\<close> returns, over the list \<open>ws\<close> of the weights:
  the proportional share \<open>B \<cdot> w / \<Sigma>w\<close> of a market of weight \<open>w\<close>; whether that share is
  under the minimum, so that the market is pinned; the budget left after the pins; the
  share of a free market in what is left; and the value that the loop over the maximum
  reads, which is the first share of a pinned market and the new share of a free one.
\<close>

definition share :: "real \<Rightarrow> real list \<Rightarrow> real \<Rightarrow> real" where
  "share B ws w = B * (w / sum_list ws)"

definition pinned :: "real \<Rightarrow> real \<Rightarrow> real list \<Rightarrow> real \<Rightarrow> bool" where
  "pinned B mn ws w = (share B ws w < mn)"

definition budget_left :: "real \<Rightarrow> real \<Rightarrow> real list \<Rightarrow> real" where
  "budget_left B mn ws = B - mn * real (length (filter (pinned B mn ws) ws))"

definition reshare :: "real \<Rightarrow> real \<Rightarrow> real list \<Rightarrow> real \<Rightarrow> real" where
  "reshare B mn ws w =
     budget_left B mn ws
       * (w / max (1 / 10 ^ 12) (sum_list (filter (\<lambda>w. \<not> pinned B mn ws w) ws)))"

definition before_max :: "real \<Rightarrow> real \<Rightarrow> real list \<Rightarrow> real \<Rightarrow> real" where
  "before_max B mn ws w = (if pinned B mn ws w then share B ws w else reshare B mn ws w)"

text \<open>
  Over the list \<open>xs\<close> of the values before the maximum is enforced: the overflow of the
  values above the maximum, the number of values not above it, a value after clipping and
  after the equal spread of the overflow, and whether the spread places the whole overflow.
\<close>

definition overflow_of :: "real \<Rightarrow> real list \<Rightarrow> real" where
  "overflow_of mx xs = sum_list (map (\<lambda>x. x - mx) (filter (\<lambda>x. x > mx) xs))"

definition n_under :: "real \<Rightarrow> real list \<Rightarrow> nat" where
  "n_under mx xs = length (filter (\<lambda>x. \<not> x > mx) xs)"

definition capped :: "real \<Rightarrow> real list \<Rightarrow> real \<Rightarrow> real" where
  "capped mx xs x =
     (if x > mx then mx
      else if overflow_of mx xs > 0 \<and> n_under mx xs \<noteq> 0
      then min mx (x + overflow_of mx xs / real (n_under mx xs))
      else x)"

definition absorbed :: "real \<Rightarrow> real list \<Rightarrow> bool" where
  "absorbed mx xs =
     (overflow_of mx xs = 0
      \<or> n_under mx xs \<noteq> 0
        \<and> list_all (\<lambda>x. x > mx \<or> x + overflow_of mx xs / real (n_under mx xs) \<le> mx) xs)"

definition dict_sum :: "(string \<times> real) list \<Rightarrow> real" where
  "dict_sum d = sum_list (map snd d)"

text \<open>Example markets: the weight is the liquidity (power 1, no penalty, full fill rate).\<close>

definition demo_alloc :: "real \<Rightarrow> real \<Rightarrow> real \<Rightarrow> CapitalAllocator" where
  "demo_alloc B mn mx =
     \<lparr>ca_total_budget_usd = B, ca_min_per_market = mn, ca_max_per_market = mx,
      ca_liquidity_power = 1, ca_quality_k = 0\<rparr>"

definition demo_market :: "string \<Rightarrow> real \<Rightarrow> MarketFeatures" where
  "demo_market cid liq =
     \<lparr>mf_condition_id = cid, mf_liquidity_num = liq, mf_fills = 1, mf_quotes = 1,
      mf_markout_sum = 0, mf_realized_spread_sum = 0\<rparr>"

text \<open>
  The markets of the two-market scenario: liquidity power \<open>0.5\<close>, penalty 2, ten fills in a
  hundred quotes, no markout.
\<close>

definition scenario_alloc :: CapitalAllocator where
  "scenario_alloc =
     \<lparr>ca_total_budget_usd = 100, ca_min_per_market = 5, ca_max_per_market = 60,
      ca_liquidity_power = 1 / 2, ca_quality_k = 2\<rparr>"

definition scenario_market :: "string \<Rightarrow> real \<Rightarrow> MarketFeatures" where
  "scenario_market cid liq =
     \<lparr>mf_condition_id = cid, mf_liquidity_num = liq, mf_fills = 10, mf_quotes = 100,
      mf_markout_sum = 0, mf_realized_spread_sum = 0\<rparr>"

section \<open>Properties of the spread quoter\<close>

text \<open>
  C2, as stated, fails: at midpoint 1/2 with a target spread of 100 bps the code quotes
  the bid 0.4975 (half of the spread on each side), where the claimed formula gives 0.495.
\<close>

theorem quotes_half_spread_counterexample:
  "(0::real) < 1 / 2 \<and> (1::real) / 2 < 1 \<and> (0::real) < 100
   \<and> map q_price (quotes \<lparr>mm_target_spread_bps = 100, mm_max_usd = 10, mm_alpha_scale = 1\<rparr> (1 / 2))
       = [0.4975, 0.5025]
   \<and> map q_price (quotes_as_specified
         \<lparr>mm_target_spread_bps = 100, mm_max_usd = 10, mm_alpha_scale = 1\<rparr> (1 / 2))
       = [0.495, 0.505]
   \<and> quotes \<lparr>mm_target_spread_bps = 100, mm_max_usd = 10, mm_alpha_scale = 1\<rparr> (1 / 2)
       \<noteq> quotes_as_specified
           \<lparr>mm_target_spread_bps = 100, mm_max_usd = 10, mm_alpha_scale = 1\<rparr> (1 / 2)"
proof -
  let ?mm = "\<lparr>mm_target_spread_bps = 100, mm_max_usd = 10, mm_alpha_scale = 1\<rparr>"
  have a: "map q_price (quotes ?mm (1 / 2)) = [0.4975, 0.5025]"
    unfolding quotes_def clamp_def Let_def SymmetricSpreadMM.simps by simp
  have b: "map q_price (quotes_as_specified ?mm (1 / 2)) = [0.495, 0.505]"
    unfolding quotes_as_specified_def clamp_def Let_def SymmetricSpreadMM.simps by simp
  have "map q_price (quotes ?mm (1 / 2)) \<noteq> map q_price (quotes_as_specified ?mm (1 / 2))"
    unfolding a b by simp
  then have c: "quotes ?mm (1 / 2) \<noteq> quotes_as_specified ?mm (1 / 2)"
    by (rule contrapos_nn) (rule arg_cong)
  show ?thesis using a b c by simp
qed

text \<open>
  C2, amended: for every midpoint \<open>m\<close>, spread \<open>s\<close> and per-side budget
  \<open>u = (max_usd / 2) \<cdot> alpha_scale\<close> the quoter returns exactly the two quotes
  BUY at \<open>bid\<close> and SELL at \<open>ask\<close>, in that order, where \<open>half = m \<cdot> s / 20000\<close>
  (the target spread is the whole distance between the quotes),
  \<open>bid = clamp (m - half)\<close>, \<open>ask = clamp (m + half)\<close> into \<open>[0.001, 0.999]\<close>, and each
  size is \<open>max 1 (u / max 0.01 price)\<close>.
\<close>

theorem quotes_formula:
  "quotes \<lparr>mm_target_spread_bps = s, mm_max_usd = max_usd, mm_alpha_scale = alpha_scale\<rparr> m =
     [\<lparr>q_side = ''BUY'',
       q_price = max 0.001 (min 0.999 (m - m * s / 20000)),
       q_size = max 1 ((max_usd / 2) * alpha_scale
                        / max 0.01 (max 0.001 (min 0.999 (m - m * s / 20000))))\<rparr>,
      \<lparr>q_side = ''SELL'',
       q_price = max 0.001 (min 0.999 (m + m * s / 20000)),
       q_size = max 1 ((max_usd / 2) * alpha_scale
                        / max 0.01 (max 0.001 (min 0.999 (m + m * s / 20000))))\<rparr>]"
proof -
  have half: "m * (s / 10000) / 2 = m * s / 20000" by simp
  show ?thesis
    unfolding quotes_def clamp_def Let_def SymmetricSpreadMM.simps half by (rule refl)
qed

section \<open>Properties of the circuit breaker\<close>

lemma record_place_cfg: "cb_cfg (record_place ok cb) = cb_cfg cb"
  by (simp add: record_place_def Let_def)

lemma fold_record_place_cfg: "cb_cfg (fold record_place oks cb) = cb_cfg cb"
  by (induction oks arbitrary: cb) (simp_all add: record_place_cfg)

lemma fold_record_place_placed:
  "cs_placed (cb_state (fold record_place oks cb)) = cs_placed (cb_state cb) + int (length oks)"
  by (induction oks arbitrary: cb) (simp_all add: record_place_def Let_def)

lemma fold_record_place_rejected:
  "cs_rejected (cb_state (fold record_place oks cb))
     = cs_rejected (cb_state cb) + int (length (filter Not oks))"
  by (induction oks arbitrary: cb) (simp_all add: record_place_def Let_def)

lemma str_int_30: "str_int 30 = ''30''"
  by code_simp

text \<open>
  The deque of cancel events is the breaker's record of the last 60 seconds: when the
  clock does not run backwards, \<^const>\<open>record_cancel\<close> leaves exactly the recorded
  events that are at most 60 s old.
\<close>

lemma trim_events_sorted:
  "sorted ts \<Longrightarrow> trim_events now ts = filter (\<lambda>t. \<not> now - t > 60) ts"
proof (induction ts)
  case Nil
  then show ?case by simp
next
  case (Cons t ts)
  show ?case
  proof (cases "now - t > 60")
    case True
    with Cons show ?thesis by simp
  next
    case False
    with Cons.prems have "\<forall>u\<in>set ts. \<not> now - u > 60" by auto
    then have "filter (\<lambda>t. \<not> now - t > 60) ts = ts" by (simp add: filter_id_conv)
    with False show ?thesis by simp
  qed
qed

lemma record_cancel_window:
  assumes "sorted (cs_cancel_events (cb_state cb))"
      and "\<forall>t\<in>set (cs_cancel_events (cb_state cb)). t \<le> now"
  shows "cs_cancel_events (cb_state (record_cancel now cb))
           = filter (\<lambda>t. now - t \<le> 60) (cs_cancel_events (cb_state cb)) @ [now]"
proof -
  have "sorted (cs_cancel_events (cb_state cb) @ [now])"
    using assms by (simp add: sorted_append)
  then show ?thesis
    by (simp add: record_cancel_def Let_def trim_events_sorted not_less)
qed

lemma cancel_times_append: "cancel_times (xs @ ys) = cancel_times xs @ cancel_times ys"
  by (induction xs rule: cancel_times.induct) simp_all

lemma apply_event_cfg: "cb_cfg (apply_event e cb) = cb_cfg cb"
  by (cases e) (simp_all add: record_place_def record_cancel_def record_error_def Let_def)

lemma fold_apply_event_cfg: "cb_cfg (fold apply_event evs cb) = cb_cfg cb"
  by (induction evs arbitrary: cb) (simp_all add: apply_event_cfg)

lemma fold_apply_event_placed:
  "cs_placed (cb_state (fold apply_event evs cb))
     = cs_placed (cb_state cb) + int (length (place_flags evs))"
proof (induction evs arbitrary: cb)
  case Nil
  then show ?case by simp
next
  case (Cons e evs)
  then show ?case
    by (cases e) (simp_all add: record_place_def record_cancel_def record_error_def Let_def)
qed

lemma fold_apply_event_rejected:
  "cs_rejected (cb_state (fold apply_event evs cb))
     = cs_rejected (cb_state cb) + int (length (filter Not (place_flags evs)))"
proof (induction evs arbitrary: cb)
  case Nil
  then show ?case by simp
next
  case (Cons e evs)
  then show ?case
    by (cases e) (simp_all add: record_place_def record_cancel_def record_error_def Let_def)
qed

lemma fold_apply_event_errors:
  "cs_errors (cb_state (fold apply_event evs cb))
     = cs_errors (cb_state cb) + int (error_count evs)"
proof (induction evs arbitrary: cb)
  case Nil
  then show ?case by simp
next
  case (Cons e evs)
  then show ?case
    by (cases e) (simp_all add: record_place_def record_cancel_def record_error_def Let_def)
qed

lemma cancels_within_later:
  assumes "sorted ts" and "\<forall>t\<in>set ts. t \<le> now"
  shows "filter (\<lambda>t. now - t \<le> 60) (cancels_within (last ts) ts) = filter (\<lambda>t. now - t \<le> 60) ts"
proof -
  have "\<And>t. t \<in> set ts \<Longrightarrow> now - t \<le> 60 \<Longrightarrow> last ts - t \<le> 60"
  proof -
    fix t
    assume t: "t \<in> set ts" and w: "now - t \<le> 60"
    then have "ts \<noteq> []" by auto
    then have "last ts \<in> set ts" by simp
    then have "last ts \<le> now" using assms(2) by blast
    then show "last ts - t \<le> 60" using w by linarith
  qed
  then show ?thesis
    unfolding cancels_within_def filter_filter by (intro filter_cong) auto
qed

lemma fold_apply_event_deque:
  assumes "sorted (cancel_times evs)" and "cs_cancel_events (cb_state cb) = []"
  shows "cs_cancel_events (cb_state (fold apply_event evs cb))
           = cancels_within (last (cancel_times evs)) (cancel_times evs)"
  using assms(1)
proof (induction evs rule: rev_induct)
  case Nil
  then show ?case using assms(2) by (simp add: cancels_within_def)
next
  case (snoc e evs)
  let ?ts = "cancel_times evs"
  let ?cb = "fold apply_event evs cb"
  show ?case
  proof (cases e)
    case (Placed ok)
    then show ?thesis
      using snoc by (simp add: cancel_times_append record_place_def Let_def)
  next
    case Errored
    then show ?thesis
      using snoc by (simp add: cancel_times_append record_error_def)
  next
    case (Cancelled now)
    from snoc.prems have s: "sorted (?ts @ [now])" by (simp add: cancel_times_append Cancelled)
    then have st: "sorted ?ts" and le: "\<forall>t\<in>set ?ts. t \<le> now" by (simp_all add: sorted_append)
    have ih: "cs_cancel_events (cb_state ?cb) = cancels_within (last ?ts) ?ts"
      by (rule snoc.IH [OF st])
    have sd: "sorted (cs_cancel_events (cb_state ?cb))"
      unfolding ih cancels_within_def using st by (rule sorted_wrt_filter)
    have ld: "\<forall>t\<in>set (cs_cancel_events (cb_state ?cb)). t \<le> now"
      unfolding ih cancels_within_def using le by simp
    have "cs_cancel_events (cb_state (record_cancel now ?cb))
            = filter (\<lambda>t. now - t \<le> 60) (cancels_within (last ?ts) ?ts) @ [now]"
      using record_cancel_window [OF sd ld] by (simp only: ih)
    also have "\<dots> = filter (\<lambda>t. now - t \<le> 60) ?ts @ [now]"
      by (simp only: cancels_within_later [OF st le])
    also have "\<dots> = cancels_within (last (?ts @ [now])) (?ts @ [now])"
      by (simp add: cancels_within_def)
    finally show ?thesis by (simp add: cancel_times_append Cancelled)
  qed
qed


lemma place_flags_map_Placed: "place_flags (map Placed oks) = oks"
  by (induction oks) simp_all

lemma cancel_times_map_Placed: "cancel_times (map Placed oks) = []"
  by (induction oks) simp_all

lemma should_halt_flag:
  "fst (should_halt fmt_pct cb) \<longleftrightarrow>
      (real_of_int (cs_rejected (cb_state cb)) / real_of_int (max 1 (cs_placed (cb_state cb)))
          \<ge> cfg_max_reject_rate (cb_cfg cb)
        \<and> cs_placed (cb_state cb) \<ge> 20)
      \<or> int (length (cs_cancel_events (cb_state cb))) > cfg_max_cancels_per_min (cb_cfg cb)
      \<or> cs_errors (cb_state cb) \<ge> cfg_max_errors (cb_cfg cb)"
  unfolding should_halt_def Let_def by (simp only: fst_conv split: if_split) blast

text \<open>
  C8, as stated, fails on the cancel condition: the deque is trimmed only when a cancel is
  recorded, so \<^verbatim>\<open>should_halt\<close> counts events that are no longer in the last 60 seconds.
  With \<open>max_cancels_per_min = 1\<close> and cancels recorded at times 0 and 1, it returns true
  at any later time, for instance at time 1000, when no recorded cancel lies in the last
  60 seconds and neither of the other two conditions holds.
\<close>

theorem should_halt_window_counterexample:
  "fst (should_halt (\<lambda>r. [])
         (fold apply_event [Cancelled 0, Cancelled 1]
            (CircuitBreaker_init (demo_cfg\<lparr>cfg_max_cancels_per_min := 1\<rparr>) 0))) = True
   \<and> cancels_within 1000 (cancel_times [Cancelled 0, Cancelled 1]) = []
   \<and> \<not> int (length (cancels_within 1000 (cancel_times [Cancelled 0, Cancelled 1])))
         > cfg_max_cancels_per_min (demo_cfg\<lparr>cfg_max_cancels_per_min := 1\<rparr>)
   \<and> \<not> cs_placed (cb_state (fold apply_event [Cancelled 0, Cancelled 1]
            (CircuitBreaker_init (demo_cfg\<lparr>cfg_max_cancels_per_min := 1\<rparr>) 0))) \<ge> 20
   \<and> \<not> cs_errors (cb_state (fold apply_event [Cancelled 0, Cancelled 1]
            (CircuitBreaker_init (demo_cfg\<lparr>cfg_max_cancels_per_min := 1\<rparr>) 0)))
         \<ge> cfg_max_errors (demo_cfg\<lparr>cfg_max_cancels_per_min := 1\<rparr>)"
  by (simp add: should_halt_flag record_cancel_def CircuitBreaker_init_def Let_def demo_cfg_def
        cancels_within_def)

text \<open>
  C8, amended: for every breaker state reached from a new breaker by recorded placements,
  cancels and errors, with a clock that does not run backwards, \<^verbatim>\<open>should_halt\<close> returns
  true exactly when \<open>rejected / max 1 placed \<ge> max_reject_rate\<close> with \<open>placed \<ge> 20\<close>, or the
  number of cancel events recorded in the 60 seconds up to the most recent recorded cancel
  exceeds \<open>max_cancels_per_min\<close>, or the recorded errors are at least \<open>max_errors\<close>; the
  deque holds exactly those cancel events. For any state, the cancel condition is that the
  deque is longer than \<open>max_cancels_per_min\<close>. After 30 recorded placements of which 12
  were rejections, with \<open>max_reject_rate = 0.30\<close>, \<^verbatim>\<open>should_halt\<close> is true and the reason
  starts with \<open>reject_rate=\<close>.
\<close>

theorem should_halt_recorded:
  assumes "sorted (cancel_times evs)"
  shows "(fst (should_halt fmt_pct (fold apply_event evs (CircuitBreaker_init cfg t0))) \<longleftrightarrow>
            (real_of_int (int (length (filter Not (place_flags evs))))
                 / real_of_int (max 1 (int (length (place_flags evs))))
               \<ge> cfg_max_reject_rate cfg
             \<and> int (length (place_flags evs)) \<ge> 20)
          \<or> int (length (cancels_within (last (cancel_times evs)) (cancel_times evs)))
               > cfg_max_cancels_per_min cfg
          \<or> int (error_count evs) \<ge> cfg_max_errors cfg)
       \<and> cs_cancel_events (cb_state (fold apply_event evs (CircuitBreaker_init cfg t0)))
           = cancels_within (last (cancel_times evs)) (cancel_times evs)
       \<and> (length (place_flags evs) = 30 \<and> length (filter Not (place_flags evs)) = 12
            \<and> cfg_max_reject_rate cfg = 3 / 10 \<longrightarrow>
          should_halt fmt_pct (fold apply_event evs (CircuitBreaker_init cfg t0))
            = (True, ''reject_rate='' @ fmt_pct (2 / 5) @ '' over placed=30''))
       \<and> (fst (should_halt fmt_pct cb) \<longleftrightarrow>
            (real_of_int (cs_rejected (cb_state cb)) / real_of_int (max 1 (cs_placed (cb_state cb)))
                \<ge> cfg_max_reject_rate (cb_cfg cb)
              \<and> cs_placed (cb_state cb) \<ge> 20)
            \<or> int (length (cs_cancel_events (cb_state cb))) > cfg_max_cancels_per_min (cb_cfg cb)
            \<or> cs_errors (cb_state cb) \<ge> cfg_max_errors (cb_cfg cb))"
proof -
  let ?cb = "fold apply_event evs (CircuitBreaker_init cfg t0)"
  have p: "cs_placed (cb_state ?cb) = int (length (place_flags evs))"
    by (simp add: fold_apply_event_placed CircuitBreaker_init_def)
  have r: "cs_rejected (cb_state ?cb) = int (length (filter Not (place_flags evs)))"
    by (simp add: fold_apply_event_rejected CircuitBreaker_init_def)
  have e: "cs_errors (cb_state ?cb) = int (error_count evs)"
    by (simp add: fold_apply_event_errors CircuitBreaker_init_def)
  have c: "cb_cfg ?cb = cfg"
    by (simp add: fold_apply_event_cfg CircuitBreaker_init_def)
  have d: "cs_cancel_events (cb_state ?cb)
             = cancels_within (last (cancel_times evs)) (cancel_times evs)"
    by (rule fold_apply_event_deque [OF assms]) (simp add: CircuitBreaker_init_def)
  have 1: "fst (should_halt fmt_pct ?cb) \<longleftrightarrow>
            (real_of_int (int (length (filter Not (place_flags evs))))
                 / real_of_int (max 1 (int (length (place_flags evs))))
               \<ge> cfg_max_reject_rate cfg
             \<and> int (length (place_flags evs)) \<ge> 20)
          \<or> int (length (cancels_within (last (cancel_times evs)) (cancel_times evs)))
               > cfg_max_cancels_per_min cfg
          \<or> int (error_count evs) \<ge> cfg_max_errors cfg"
    unfolding should_halt_flag p r e c d by (rule refl)
  have 3: "length (place_flags evs) = 30 \<and> length (filter Not (place_flags evs)) = 12
            \<and> cfg_max_reject_rate cfg = 3 / 10 \<longrightarrow>
          should_halt fmt_pct ?cb
            = (True, ''reject_rate='' @ fmt_pct (2 / 5) @ '' over placed=30'')"
  proof
    assume h: "length (place_flags evs) = 30 \<and> length (filter Not (place_flags evs)) = 12
            \<and> cfg_max_reject_rate cfg = 3 / 10"
    show "should_halt fmt_pct ?cb
            = (True, ''reject_rate='' @ fmt_pct (2 / 5) @ '' over placed=30'')"
      unfolding should_halt_def Let_def p r c using h by (simp add: str_int_30)
  qed
  from 1 d 3 should_halt_flag [of fmt_pct cb] show ?thesis by blast
qed

theorem should_halt_recorded_witness:
  "sorted (cancel_times [Cancelled 0, Placed True, Cancelled 1, Errored, Cancelled 100])
   \<and> cs_cancel_events (cb_state
        (fold apply_event [Cancelled 0, Placed True, Cancelled 1, Errored, Cancelled 100]
           (CircuitBreaker_init (demo_cfg\<lparr>cfg_max_cancels_per_min := 1\<rparr>) 0))) = [100]
   \<and> fst (should_halt (\<lambda>r. ''40.00%'')
        (fold apply_event [Cancelled 0, Placed True, Cancelled 1, Errored, Cancelled 100]
           (CircuitBreaker_init (demo_cfg\<lparr>cfg_max_cancels_per_min := 1\<rparr>) 0))) = False
   \<and> should_halt (\<lambda>r. ''40.00%'')
        (fold apply_event (map Placed (replicate 18 True @ replicate 12 False))
           (CircuitBreaker_init demo_cfg 0))
       = (True, ''reject_rate=40.00% over placed=30'')"
proof -
  let ?evs = "[Cancelled 0, Placed True, Cancelled 1, Errored, Cancelled 100]"
  let ?cfg = "demo_cfg\<lparr>cfg_max_cancels_per_min := 1\<rparr>"
  let ?evs2 = "map Placed (replicate 18 True @ replicate 12 False)"
  have s: "sorted (cancel_times ?evs)" by simp
  have s2: "sorted (cancel_times ?evs2)" by (simp only: cancel_times_map_Placed sorted_wrt.simps)
  note a = should_halt_recorded [OF s, of "\<lambda>r. ''40.00%''" ?cfg 0
             "CircuitBreaker_init demo_cfg 0"]
  note b = should_halt_recorded [OF s2, of "\<lambda>r. ''40.00%''" demo_cfg 0
             "CircuitBreaker_init demo_cfg 0"]
  have w: "cancels_within (last (cancel_times ?evs)) (cancel_times ?evs) = [100]"
    by (simp add: cancels_within_def)
  have 1: "cs_cancel_events (cb_state (fold apply_event ?evs (CircuitBreaker_init ?cfg 0))) = [100]"
    using a unfolding w by blast
  have 2: "fst (should_halt (\<lambda>r. ''40.00%'')
                  (fold apply_event ?evs (CircuitBreaker_init ?cfg 0))) = False"
    using a unfolding w by (simp add: demo_cfg_def)
  have 3: "should_halt (\<lambda>r. ''40.00%'') (fold apply_event ?evs2 (CircuitBreaker_init demo_cfg 0))
             = (True, ''reject_rate=40.00% over placed=30'')"
  proof -
    have pf: "place_flags ?evs2 = replicate 18 True @ replicate 12 False"
      by (rule place_flags_map_Placed)
    have h: "length (place_flags ?evs2) = 30 \<and> length (filter Not (place_flags ?evs2)) = 12
               \<and> cfg_max_reject_rate demo_cfg = 3 / 10"
      unfolding pf by (simp add: demo_cfg_def)
    from b h have "should_halt (\<lambda>r. ''40.00%'')
                     (fold apply_event ?evs2 (CircuitBreaker_init demo_cfg 0))
             = (True, ''reject_rate='' @ (\<lambda>r. ''40.00%'') (2 / 5 :: real) @ '' over placed=30'')"
      by blast
    then show ?thesis by simp
  qed
  from s 1 2 3 show ?thesis by blast
qed

section \<open>Properties of the calibrator\<close>

text \<open>
  C5, as stated, fails. With no quotes counted the prior parameters are returned as they
  are, whatever their values; and a prior spread of zero with quotes counted raises
  \<^verbatim>\<open>ZeroDivisionError\<close>, so that no parameters are returned.
\<close>

theorem next_params_prior_counterexample:
  "next_params \<lparr>p_alpha = 1, p_target_spread_bps = 1000, p_max_usd = 50,
       p_quote_refresh_sec = 30, p_cancel_reprice_sec = 1,
       p_state = \<lparr>st_fills = 0, st_quotes = 0, st_markout_sum = 0,
                   st_realized_spread_sum = 0\<rparr>\<rparr>
     = Inr \<lparr>p_alpha = 1, p_target_spread_bps = 1000, p_max_usd = 50,
       p_quote_refresh_sec = 30, p_cancel_reprice_sec = 1,
       p_state = \<lparr>st_fills = 0, st_quotes = 0, st_markout_sum = 0,
                   st_realized_spread_sum = 0\<rparr>\<rparr>
   \<and> \<not> (1000::real) \<le> 500 \<and> \<not> (30::real) \<le> 10 \<and> \<not> (5::real) \<le> 1
   \<and> next_params \<lparr>p_alpha = 1, p_target_spread_bps = 0, p_max_usd = 50,
       p_quote_refresh_sec = 2, p_cancel_reprice_sec = 10,
       p_state = \<lparr>st_fills = 0, st_quotes = 1, st_markout_sum = 0,
                   st_realized_spread_sum = 0\<rparr>\<rparr>
     = Inl ZeroDivisionError"
  by (simp add: next_params_def Let_def)

text \<open>
  C5, amended: for every input whose state has counted at least one quote and whose prior
  spread is not zero, \<^verbatim>\<open>next_params\<close> returns parameters with
  \<open>20 \<le> target_spread_bps \<le> 500\<close>, \<open>1 \<le> quote_refresh_sec \<le> 10\<close> and
  \<open>5 \<le> cancel_reprice_sec \<le> 60\<close>.
\<close>

theorem next_params_bounds:
  assumes "st_quotes (p_state prev) > 0" and "p_target_spread_bps prev \<noteq> 0"
  shows "\<exists>p. next_params prev = Inr p
            \<and> 20 \<le> p_target_spread_bps p \<and> p_target_spread_bps p \<le> 500
            \<and> 1 \<le> p_quote_refresh_sec p \<and> p_quote_refresh_sec p \<le> 10
            \<and> 5 \<le> p_cancel_reprice_sec p \<and> p_cancel_reprice_sec p \<le> 60"
proof -
  obtain sp0 :: real where sp0:
    "sp0 = (if st_fills (p_state prev) \<ge> 5
                 \<and> st_markout_sum (p_state prev) / real_of_int (max 1 (st_fills (p_state prev))) < 0
            then p_target_spread_bps prev
                   * (1 + min 0.50 (\<bar>st_markout_sum (p_state prev)
                                       / real_of_int (max 1 (st_fills (p_state prev)))\<bar> * 5))
            else if real_of_int (st_fills (p_state prev))
                      / real_of_int (max 1 (st_quotes (p_state prev))) < 0.01
                    \<and> st_quotes (p_state prev) > 500
            then p_target_spread_bps prev * 0.90
            else p_target_spread_bps prev)"
    by simp
  define sp where "sp = max 20 (min sp0 500)"
  define qr where "qr = min 10 (max 1 (p_quote_refresh_sec prev * (sp / p_target_spread_bps prev)))"
  define cr where "cr = min 60 (max 5 (p_cancel_reprice_sec prev * (sp / p_target_spread_bps prev)))"
  have eq: "next_params prev =
        Inr \<lparr>p_alpha = p_alpha prev, p_target_spread_bps = sp, p_max_usd = p_max_usd prev,
             p_quote_refresh_sec = qr, p_cancel_reprice_sec = cr, p_state = p_state prev\<rparr>"
    using assms unfolding next_params_def Let_def sp_def qr_def cr_def sp0
    by (simp only: not_le [symmetric] if_False if_True not_not simp_thms)
  have "20 \<le> sp" "sp \<le> 500" "1 \<le> qr" "qr \<le> 10" "5 \<le> cr" "cr \<le> 60"
    by (simp_all add: sp_def qr_def cr_def)
  then show ?thesis unfolding eq by simp
qed

theorem next_params_bounds_witness:
  "st_quotes (p_state \<lparr>p_alpha = 1, p_target_spread_bps = 60, p_max_usd = 50,
       p_quote_refresh_sec = 2, p_cancel_reprice_sec = 10,
       p_state = \<lparr>st_fills = 10, st_quotes = 100, st_markout_sum = - (2 / 100),
                   st_realized_spread_sum = 0\<rparr>\<rparr>) > 0
   \<and> (\<exists>p. next_params \<lparr>p_alpha = 1, p_target_spread_bps = 60, p_max_usd = 50,
       p_quote_refresh_sec = 2, p_cancel_reprice_sec = 10,
       p_state = \<lparr>st_fills = 10, st_quotes = 100, st_markout_sum = - (2 / 100),
                   st_realized_spread_sum = 0\<rparr>\<rparr> = Inr p
            \<and> 20 \<le> p_target_spread_bps p \<and> p_target_spread_bps p \<le> 500
            \<and> 1 \<le> p_quote_refresh_sec p \<and> p_quote_refresh_sec p \<le> 10
            \<and> 5 \<le> p_cancel_reprice_sec p \<and> p_cancel_reprice_sec p \<le> 60)"
proof -
  let ?prev = "\<lparr>p_alpha = 1, p_target_spread_bps = 60, p_max_usd = 50,
       p_quote_refresh_sec = 2, p_cancel_reprice_sec = 10,
       p_state = \<lparr>st_fills = 10, st_quotes = 100, st_markout_sum = - (2 / 100),
                   st_realized_spread_sum = 0\<rparr>\<rparr>"
  have a: "st_quotes (p_state ?prev) > 0" by simp
  have b: "p_target_spread_bps ?prev \<noteq> 0" by simp
  from next_params_bounds [OF a b] a show ?thesis by blast
qed

section \<open>Properties of the inventory\<close>

lemma upper_BUY: "upper ''BUY'' = ''BUY''"
  by code_simp

lemma upper_SELL: "upper ''SELL'' = ''SELL''"
  by code_simp

lemma pos_ok_default: "pos_ok \<lparr>pos_qty = 0, pos_avg_cost = 0, pos_realized = 0\<rparr>"
  by (simp add: pos_ok_def)

lemma buy_avg_cost_pos:
  fixes q a pr sz e :: real
  assumes "0 \<le> q" "0 \<le> a" "(a = 0) = (q \<le> e)" "0 < pr" "0 \<le> sz" "e < q + sz"  "0 < e"
  shows "0 < (a * q + pr * sz) / (q + sz)"
proof -
  have den: "0 < q + sz" using assms by linarith
  have "0 < a * q + pr * sz"
  proof (cases "q \<le> e")
    case True
    then have "a = 0" using assms by simp
    moreover have "0 < sz" using True assms by linarith
    ultimately show ?thesis using assms by simp
  next
    case False
    then have "a \<noteq> 0" using assms by simp
    then have "0 < a" using assms by simp
    moreover have "0 < q" using False assms by linarith
    ultimately have "0 < a * q" by simp
    moreover have "0 \<le> pr * sz" using assms by simp
    ultimately show ?thesis by linarith
  qed
  with den show ?thesis by simp
qed

lemma buy_pos_ok:
  assumes "pos_ok p" "0 < price" "0 \<le> sz"
  shows "pos_ok ((if pos_qty p + sz > 1 / 10 ^ 12
                  then p\<lparr>pos_avg_cost := (pos_avg_cost p * pos_qty p + price * sz) / (pos_qty p + sz)\<rparr>
                  else p)\<lparr>pos_qty := pos_qty p + sz\<rparr>)"
proof (cases "pos_qty p + sz > 1 / 10 ^ 12")
  case True
  define a where "a = (pos_avg_cost p * pos_qty p + price * sz) / (pos_qty p + sz)"
  have "0 < a"
    unfolding a_def using assms True
    by (intro buy_avg_cost_pos [where e = "1 / 10 ^ 12"]) (simp_all add: pos_ok_def)
  moreover have "0 \<le> pos_qty p + sz" using assms by (simp add: pos_ok_def)
  ultimately have "pos_ok (p\<lparr>pos_avg_cost := a, pos_qty := pos_qty p + sz\<rparr>)"
    using True by (simp add: pos_ok_def)
  then show ?thesis using True by (simp add: a_def)
next
  case False
  then have "pos_qty p \<le> 1 / 10 ^ 12" using assms by linarith
  then show ?thesis using False assms by (simp add: pos_ok_def)
qed

lemma sell_pos_ok:
  assumes "pos_ok p" "0 \<le> ss" "ss \<le> pos_qty p"
  shows "pos_ok (let p1 = p\<lparr>pos_realized := r\<rparr>;
                     p2 = p1\<lparr>pos_qty := pos_qty p1 - ss\<rparr>
                 in if pos_qty p2 \<le> 1 / 10 ^ 12 then p2\<lparr>pos_qty := 0, pos_avg_cost := 0\<rparr> else p2)"
proof (cases "pos_qty p - ss \<le> 1 / 10 ^ 12")
  case True
  then show ?thesis by (simp add: pos_ok_def Let_def)
next
  case False
  then have big: "\<not> pos_qty p \<le> 1 / 10 ^ 12" using assms(2) by linarith
  then have a: "pos_avg_cost p \<noteq> 0" "0 \<le> pos_avg_cost p"
    using assms(1) by (simp_all add: pos_ok_def)
  have "0 \<le> pos_qty p - ss" using assms(3) by simp
  then show ?thesis using False a by (simp add: pos_ok_def Let_def)
qed

lemma apply_fill_pos_ok:
  assumes inv: "\<And>t p. inv_pos self t = Some p \<Longrightarrow> pos_ok p"
      and "0 < price" "0 \<le> sz"
      and res: "inv_pos (apply_fill token side price sz fee self) t = Some p"
  shows "pos_ok p"
proof -
  define p0 where "p0 = (case inv_pos self token of
                 None \<Rightarrow> \<lparr>pos_qty = 0, pos_avg_cost = 0, pos_realized = 0\<rparr>
               | Some p \<Rightarrow> p)"
  have p0: "pos_ok p0"
    unfolding p0_def using inv by (auto simp: pos_ok_default split: option.splits)
  show ?thesis
  proof (cases "t = token")
    case False
    then have "inv_pos self t = Some p"
      using res by (simp add: apply_fill_def Let_def split: if_splits)
    then show ?thesis by (rule inv)
  next
    case True
    show ?thesis
    proof (cases "upper side = ''BUY''")
      case buy: True
      have "p = (if pos_qty p0 + sz > 1 / 10 ^ 12
                  then p0\<lparr>pos_avg_cost := (pos_avg_cost p0 * pos_qty p0 + price * sz) / (pos_qty p0 + sz)\<rparr>
                  else p0)\<lparr>pos_qty := pos_qty p0 + sz\<rparr>"
        using res True buy unfolding apply_fill_def Let_def p0_def [symmetric] by simp
      then show ?thesis using buy_pos_ok [OF p0 assms(2,3)] by simp
    next
      case sell: False
      have "p = (let p1 = p0\<lparr>pos_realized := pos_realized p0 + (price - pos_avg_cost p0) * min sz (pos_qty p0)\<rparr>;
                     p2 = p1\<lparr>pos_qty := pos_qty p1 - min sz (pos_qty p0)\<rparr>
                 in if pos_qty p2 \<le> 1 / 10 ^ 12 then p2\<lparr>pos_qty := 0, pos_avg_cost := 0\<rparr> else p2)"
        using res True sell unfolding apply_fill_def Let_def p0_def [symmetric] by simp
      moreover have "0 \<le> min sz (pos_qty p0)" "min sz (pos_qty p0) \<le> pos_qty p0"
        using p0 assms(3) by (simp_all add: pos_ok_def)
      ultimately show ?thesis using sell_pos_ok [OF p0] by simp
    qed
  qed
qed

lemma apply_fills_pos_ok:
  assumes "\<And>t p. inv_pos self t = Some p \<Longrightarrow> pos_ok p"
      and "\<forall>f\<in>set fills. 0 < f_price f \<and> 0 \<le> f_size f"
      and "inv_pos (apply_fills fills self) t = Some p"
  shows "pos_ok p"
  using assms
proof (induction fills arbitrary: self)
  case Nil
  then show ?case by simp
next
  case (Cons f fs)
  let ?s = "apply_fill (f_token_id f) (f_side f) (f_price f) (f_size f) (f_fee f) self"
  have "\<And>t p. inv_pos ?s t = Some p \<Longrightarrow> pos_ok p"
    using Cons.prems(1,2) by (auto intro: apply_fill_pos_ok)
  moreover have "\<forall>f\<in>set fs. 0 < f_price f \<and> 0 \<le> f_size f" using Cons.prems(2) by simp
  moreover have "inv_pos (apply_fills fs ?s) t = Some p" using Cons.prems(3) by simp
  ultimately show ?case by (rule Cons.IH)
qed

text \<open>
  C6, as stated, fails: a BUY whose size leaves the quantity at or below the
  threshold \<open>1e-12\<close> (here a first BUY of size \<open>1e-13\<close>) keeps the average cost at 0
  while the quantity is not 0.
\<close>

theorem apply_fill_dust_counterexample:
  "(0::real) < 1 / 2 \<and> (1::real) / 2 < 1 \<and> (0::real) \<le> 1 / 10 ^ 13
   \<and> inv_pos (apply_fills
        [\<lparr>f_token_id = ''T'', f_side = ''BUY'', f_price = 1 / 2, f_size = 1 / 10 ^ 13, f_fee = 0\<rparr>]
        (InventoryEngine_init 1000)) ''T''
       = Some \<lparr>pos_qty = 1 / 10 ^ 13, pos_avg_cost = 0, pos_realized = 0\<rparr>
   \<and> \<not> ((0::real) = 0 \<longleftrightarrow> (1::real) / 10 ^ 13 = 0)"
  by (simp add: apply_fill_def Let_def upper_BUY InventoryEngine_init_def)

text \<open>
  C6, amended: after every finite sequence of fills (any side text: what is not BUY is
  booked as a SELL) with positive prices and non-negative sizes, starting from the empty
  inventory, every position has \<open>qty \<ge> 0\<close>, has \<open>avg_cost = 0\<close> when \<open>qty = 0\<close>, and has
  \<open>avg_cost = 0\<close> if and only if \<open>qty \<le> 1e-12\<close>.
\<close>

theorem apply_fills_position_invariant:
  assumes "\<forall>f\<in>set fills. 0 < f_price f \<and> f_price f < 1 \<and> 0 \<le> f_size f \<and> 0 \<le> f_fee f"
      and "inv_pos (apply_fills fills (InventoryEngine_init cash)) token = Some p"
  shows "0 \<le> pos_qty p \<and> (pos_qty p = 0 \<longrightarrow> pos_avg_cost p = 0)
         \<and> (pos_avg_cost p = 0 \<longleftrightarrow> pos_qty p \<le> 1 / 10 ^ 12)"
proof -
  have "\<And>t p. inv_pos (InventoryEngine_init cash) t = Some p \<Longrightarrow> pos_ok p"
    by (simp add: InventoryEngine_init_def)
  moreover have "\<forall>f\<in>set fills. 0 < f_price f \<and> 0 \<le> f_size f" using assms(1) by simp
  ultimately have "pos_ok p" using assms(2) by (rule apply_fills_pos_ok)
  then show ?thesis by (simp add: pos_ok_def)
qed

theorem apply_fills_position_invariant_witness:
  "inv_pos (apply_fills
        [\<lparr>f_token_id = ''T'', f_side = ''BUY'', f_price = 4 / 10, f_size = 10, f_fee = 0\<rparr>,
         \<lparr>f_token_id = ''T'', f_side = ''BUY'', f_price = 6 / 10, f_size = 10, f_fee = 0\<rparr>,
         \<lparr>f_token_id = ''T'', f_side = ''SELL'', f_price = 7 / 10, f_size = 5, f_fee = 0\<rparr>]
        (InventoryEngine_init 1000)) ''T''
       = Some \<lparr>pos_qty = 15, pos_avg_cost = 1 / 2, pos_realized = 1\<rparr>
   \<and> (0::real) \<le> 15 \<and> ((1::real) / 2 = 0 \<longleftrightarrow> (15::real) \<le> 1 / 10 ^ 12)"
proof -
  let ?fills = "[\<lparr>f_token_id = ''T'', f_side = ''BUY'', f_price = 4 / 10, f_size = 10, f_fee = 0\<rparr>,
         \<lparr>f_token_id = ''T'', f_side = ''BUY'', f_price = 6 / 10, f_size = 10, f_fee = 0\<rparr>,
         \<lparr>f_token_id = ''T'', f_side = ''SELL'', f_price = 7 / 10, f_size = 5, f_fee = 0\<rparr>]"
  have h: "\<forall>f\<in>set ?fills. 0 < f_price f \<and> f_price f < 1 \<and> 0 \<le> f_size f \<and> 0 \<le> f_fee f"
    by simp
  have e: "inv_pos (apply_fills ?fills (InventoryEngine_init 1000)) ''T''
       = Some \<lparr>pos_qty = 15, pos_avg_cost = 1 / 2, pos_realized = 1\<rparr>"
    by (simp add: apply_fill_def Let_def upper_BUY upper_SELL InventoryEngine_init_def)
  from apply_fills_position_invariant [OF h e] e show ?thesis by simp
qed

section \<open>Properties of the post-only guard\<close>

lemma upper_char_idem: "upper_char (upper_char c) = upper_char c"
proof (cases "97 \<le> (of_char c :: nat) \<and> (of_char c :: nat) \<le> 122")
  case True
  then have u: "upper_char c = char_of ((of_char c :: nat) - 32)"
    unfolding upper_char_def Let_def by auto
  from True have "(of_char c :: nat) - 32 < 256" by linarith
  then have "((of_char c :: nat) - 32) mod 256 = of_char c - 32" by (rule mod_less)
  then have "(of_char (char_of ((of_char c :: nat) - 32)) :: nat) = of_char c - 32" by simp
  moreover have "\<not> (97 \<le> (of_char c :: nat) - 32 \<and> (of_char c :: nat) - 32 \<le> 122)"
    using True by linarith
  ultimately have "upper_char (char_of ((of_char c :: nat) - 32)) = char_of ((of_char c :: nat) - 32)"
    unfolding upper_char_def Let_def by auto
  then show ?thesis unfolding u .
next
  case False
  then have "upper_char c = c"
    unfolding upper_char_def Let_def by auto
  then show ?thesis by simp
qed

lemma upper_idem: "upper (upper s) = upper s"
  by (simp add: upper_def upper_char_idem)

text \<open>
  C7: with \<^verbatim>\<open>post_only\<close> enabled, a BUY at \<open>p \<ge> best_ask\<close> is adjusted to
  \<open>best_ask - tick\<close> and blocked exactly when that is \<open>\<le> 0\<close>; a SELL at \<open>p \<le> best_bid\<close> is
  adjusted to \<open>best_bid + tick\<close> and blocked exactly when that is \<open>\<ge> 1\<close>; the tick is
  \<open>1e-3\<close> when unknown; with the relevant best quote absent the price is unchanged. A blocked
  call of \<^verbatim>\<open>place_or_replace\<close> returns the failure \<open>post_only_guard_blocked\<close> and
  changes nothing; otherwise the call goes on at the guarded price.
\<close>

theorem guard_post_only_spec:
  assumes "om_post_only self"
  shows "(upper side = ''BUY'' \<and> p \<ge> a \<longrightarrow>
            guard_post_only self side p bb (Some a)
              = (if a - tick_or self (1 / 10 ^ 3) \<le> 0 then None
                 else Some (a - tick_or self (1 / 10 ^ 3))))
       \<and> (upper side = ''SELL'' \<and> p \<le> b \<longrightarrow>
            guard_post_only self side p (Some b) ba
              = (if b + tick_or self (1 / 10 ^ 3) \<ge> 1 then None
                 else Some (b + tick_or self (1 / 10 ^ 3))))
       \<and> (om_tick_size self = None \<longrightarrow> tick_or self (1 / 10 ^ 3) = 1 / 10 ^ 3)
       \<and> (upper side = ''BUY'' \<longrightarrow> guard_post_only self side p bb None = Some p)
       \<and> (upper side = ''SELL'' \<longrightarrow> guard_post_only self side p None ba = Some p)
       \<and> (guard_post_only self side p bb ba = None \<longrightarrow>
            place_or_replace ex now self w cid tok side p sz bb ba
              = Inr (blocked_result bb ba, self, w)
            \<and> res_success (blocked_result bb ba) = False
            \<and> res_error (blocked_result bb ba) = Some ''post_only_guard_blocked'')
       \<and> (guard_post_only self side p bb ba = Some g \<longrightarrow>
            place_or_replace ex now self w cid tok side p sz bb ba
              = place_guarded ex now self w cid tok (upper side) g sz bb ba)"
proof (intro conjI impI)
  assume "upper side = ''BUY'' \<and> p \<ge> a"
  then show "guard_post_only self side p bb (Some a)
              = (if a - tick_or self (1 / 10 ^ 3) \<le> 0 then None
                 else Some (a - tick_or self (1 / 10 ^ 3)))"
    using assms by (simp add: guard_post_only_def guard_buy_def Let_def not_le)
next
  assume "upper side = ''SELL'' \<and> p \<le> b"
  then show "guard_post_only self side p (Some b) ba
              = (if b + tick_or self (1 / 10 ^ 3) \<ge> 1 then None
                 else Some (b + tick_or self (1 / 10 ^ 3)))"
    using assms
    by (simp add: guard_post_only_def guard_buy_def guard_sell_def Let_def not_le
          split: option.split)
next
  assume "om_tick_size self = None"
  then show "tick_or self (1 / 10 ^ 3) = 1 / 10 ^ 3" by (simp add: tick_or_def)
next
  assume "upper side = ''BUY''"
  then show "guard_post_only self side p bb None = Some p"
    using assms
    by (simp add: guard_post_only_def guard_buy_def guard_sell_def Let_def split: option.split)
next
  assume "upper side = ''SELL''"
  then show "guard_post_only self side p None ba = Some p"
    using assms
    by (simp add: guard_post_only_def guard_buy_def guard_sell_def Let_def split: option.split)
next
  have g: "guard_post_only self (upper side) p bb ba = guard_post_only self side p bb ba"
    by (simp add: guard_post_only_def upper_idem)
  {
    assume "guard_post_only self side p bb ba = None"
    then show "place_or_replace ex now self w cid tok side p sz bb ba
                 = Inr (blocked_result bb ba, self, w)"
      by (simp add: place_or_replace_def Let_def g)
  }
  {
    assume "guard_post_only self side p bb ba = Some g"
    then show "place_or_replace ex now self w cid tok side p sz bb ba
              = place_guarded ex now self w cid tok (upper side) g sz bb ba"
      by (simp add: place_or_replace_def Let_def g)
  }
next
  show "res_success (blocked_result bb ba) = False" by (simp add: blocked_result_def)
next
  show "res_error (blocked_result bb ba) = Some ''post_only_guard_blocked''"
    by (simp add: blocked_result_def)
qed

theorem guard_post_only_spec_witness:
  "om_post_only demo_om
   \<and> guard_post_only demo_om ''buy'' (51 / 100) None (Some (1 / 2)) = Some (49 / 100)
   \<and> guard_post_only demo_om ''SELL'' (1 / 2) (Some (1 / 2)) None = Some (51 / 100)
   \<and> tick_or (demo_om\<lparr>om_tick_size := None\<rparr>) (1 / 10 ^ 3) = 1 / 10 ^ 3
   \<and> guard_post_only demo_om ''BUY'' (51 / 100) (Some (1 / 2)) None = Some (51 / 100)
   \<and> guard_post_only demo_om ''SELL'' (1 / 2) None (Some (1 / 2)) = Some (1 / 2)
   \<and> place_or_replace (fixed_venue (venue_ok ''v1'') True) 100 demo_om empty_world
        ''cond'' ''T'' ''BUY'' (1 / 2) 10 None (Some (1 / 200))
       = Inr (blocked_result None (Some (1 / 200)), demo_om, empty_world)
   \<and> place_or_replace (fixed_venue (venue_ok ''v1'') True) 100 demo_om empty_world
        ''cond'' ''T'' ''BUY'' (51 / 100) 10 None (Some (1 / 2))
       = place_guarded (fixed_venue (venue_ok ''v1'') True) 100 demo_om empty_world
        ''cond'' ''T'' ''BUY'' (49 / 100) 10 None (Some (1 / 2))"
proof -
  have po: "om_post_only demo_om" by (simp add: demo_om_def)
  have po': "om_post_only (demo_om\<lparr>om_tick_size := None\<rparr>)" by (simp add: demo_om_def)
  have ub: "upper ''buy'' = ''BUY''" by code_simp
  have t: "tick_or demo_om (1 / 1000) = 1 / 100" by (simp add: tick_or_def demo_om_def)
  note sp = guard_post_only_spec [OF po, where ex = "fixed_venue (venue_ok ''v1'') True"
      and now = 100 and w = empty_world and cid = "''cond''" and tok = "''T''" and sz = 10]
  have 1: "guard_post_only demo_om ''buy'' (51 / 100) None (Some (1 / 2)) = Some (49 / 100)"
    using sp [where side = "''buy''" and a = "1 / 2" and p = "51 / 100" and bb = None and b = 0 and ba = None and g = 0]
    by (simp add: ub t)
  have 2: "guard_post_only demo_om ''SELL'' (1 / 2) (Some (1 / 2)) None = Some (51 / 100)"
    using sp [where side = "''SELL''" and b = "1 / 2" and p = "1 / 2" and ba = None and a = 0 and bb = None and g = 0]
    by (simp add: upper_SELL t)
  have 3: "tick_or (demo_om\<lparr>om_tick_size := None\<rparr>) (1 / 10 ^ 3) = 1 / 10 ^ 3"
    using guard_post_only_spec [OF po', where side = "''BUY''" and a = 0 and p = 0 and bb = None
      and b = 0 and ba = None and g = 0 and ex = "fixed_venue (venue_ok ''v1'') True"
      and now = 100 and w = empty_world and cid = "''cond''" and tok = "''T''" and sz = 10]
    by simp
  have 4: "guard_post_only demo_om ''BUY'' (51 / 100) (Some (1 / 2)) None = Some (51 / 100)"
    using sp [where side = "''BUY''" and p = "51 / 100" and bb = "Some (1 / 2)" and a = 0 and b = 0 and ba = None and g = 0]
    by (simp add: upper_BUY)
  have 5: "guard_post_only demo_om ''SELL'' (1 / 2) None (Some (1 / 2)) = Some (1 / 2)"
    using sp [where side = "''SELL''" and p = "1 / 2" and ba = "Some (1 / 2)" and a = 0 and bb = None and b = 0 and g = 0]
    by (simp add: upper_SELL)
  have b: "guard_post_only demo_om ''BUY'' (1 / 2) None (Some (1 / 200)) = None"
    using sp [where side = "''BUY''" and a = "1 / 200" and p = "1 / 2" and bb = None and b = 0 and ba = None and g = 0]
    by (simp add: upper_BUY t)
  have 6: "place_or_replace (fixed_venue (venue_ok ''v1'') True) 100 demo_om empty_world
        ''cond'' ''T'' ''BUY'' (1 / 2) 10 None (Some (1 / 200))
       = Inr (blocked_result None (Some (1 / 200)), demo_om, empty_world)"
    using sp [where side = "''BUY''" and p = "1 / 2" and bb = None and ba = "Some (1 / 200)" and a = 0 and b = 0 and g = 0] b
    by simp
  have g: "guard_post_only demo_om ''BUY'' (51 / 100) None (Some (1 / 2)) = Some (49 / 100)"
    using sp [where side = "''BUY''" and a = "1 / 2" and p = "51 / 100" and bb = None and b = 0 and ba = None and g = 0]
    by (simp add: upper_BUY t)
  have 7: "place_or_replace (fixed_venue (venue_ok ''v1'') True) 100 demo_om empty_world
        ''cond'' ''T'' ''BUY'' (51 / 100) 10 None (Some (1 / 2))
       = place_guarded (fixed_venue (venue_ok ''v1'') True) 100 demo_om empty_world
        ''cond'' ''T'' ''BUY'' (49 / 100) 10 None (Some (1 / 2))"
    using sp [where side = "''BUY''" and p = "51 / 100" and bb = None and ba = "Some (1 / 2)"
                and g = "49 / 100" and a = 0 and b = 0] g
    by (simp add: upper_BUY)
  from po 1 2 3 4 5 6 7 show ?thesis by blast
qed

section \<open>Properties of placement\<close>

lemma live_get_update:
  "live_get (self\<lparr>om_live := AList.update token_id l (om_live self)\<rparr>) token_id = l"
  by (simp add: live_get_def update_conv')

text \<open>
  C10, as stated, fails on a venue result with \<^verbatim>\<open>success=true\<close> and an empty (non-null)
  \<^verbatim>\<open>venue_order_id\<close>: the test \<^verbatim>\<open>res.success and res.venue_order_id\<close> is false, nothing is
  appended, and the row is persisted as PLACED.
\<close>

theorem place_empty_id_counterexample:
  "res_success (venue_ok []) \<and> res_venue_order_id (venue_ok []) \<noteq> None
   \<and> place_or_replace (fixed_venue (venue_ok []) True) 100 demo_om empty_world
        ''cond'' ''T'' ''BUY'' (1 / 2) 10 None None
       = Inr (venue_ok [], demo_om\<lparr>om_live := [(''T'', [])]\<rparr>,
              empty_world\<lparr>orders_tbl :=
                [place_row demo_om 100 ''cond'' ''T'' ''BUY'' (1 / 2) 10 None None (venue_ok [])]\<rparr>)
   \<and> live_get (demo_om\<lparr>om_live := [(''T'', [])]\<rparr>) ''T'' = []
   \<and> row_status (place_row demo_om 100 ''cond'' ''T'' ''BUY'' (1 / 2) 10 None None (venue_ok []))
       = ''PLACED''"
proof -
  have g: "guard_post_only demo_om ''BUY'' (1 / 2) None None = Some (1 / 2)"
    by (simp add: guard_post_only_def guard_buy_def guard_sell_def upper_BUY Let_def)
  have c: "cancel_phase (fixed_venue (venue_ok []) True) demo_om 100 ''cond'' ''T'' ''BUY'' (1 / 2)
             empty_world = Inr ([], empty_world)"
    by (simp add: cancel_phase_def live_get_def demo_om_def)
  have "place_or_replace (fixed_venue (venue_ok []) True) 100 demo_om empty_world
        ''cond'' ''T'' ''BUY'' (1 / 2) 10 None None
       = Inr (venue_ok [], demo_om\<lparr>om_live := [(''T'', [])]\<rparr>,
              empty_world\<lparr>orders_tbl :=
                [place_row demo_om 100 ''cond'' ''T'' ''BUY'' (1 / 2) 10 None None (venue_ok [])]\<rparr>)"
    unfolding place_or_replace_def Let_def upper_BUY g option.case place_guarded_def c
    by (simp add: fixed_venue_def accepted_def venue_ok_def demo_om_def empty_world_def)
  moreover have "live_get (demo_om\<lparr>om_live := [(''T'', [])]\<rparr>) ''T'' = []"
    by (simp add: live_get_def)
  moreover have "row_status (place_row demo_om 100 ''cond'' ''T'' ''BUY'' (1 / 2) 10 None None
                   (venue_ok [])) = ''PLACED''"
    by (simp add: place_row_def venue_ok_def)
  ultimately show ?thesis by (simp add: venue_ok_def)
qed

text \<open>
  C10, amended: for every call of \<^verbatim>\<open>place_or_replace\<close> that passes the guard and the
  cancellations, with \<open>existing\<close> the live orders of the token after the replace and capacity
  cancellations and \<open>res\<close> the venue's place result, the call returns \<open>res\<close>; a new
  \<^verbatim>\<open>LiveOrderState\<close> is appended to \<open>existing\<close> if and only if \<open>res\<close> has
  \<^verbatim>\<open>success=true\<close> and a \<^verbatim>\<open>venue_order_id\<close> that is neither null nor empty, and otherwise
  \<open>live[token]\<close> is exactly \<open>existing\<close>; one order row is persisted for the placement, with
  status PLACED when \<^verbatim>\<open>success=true\<close> and REJECTED when not.
\<close>

theorem place_or_replace_live:
  assumes g: "guard_post_only self (upper side) price bb ba = Some gp"
      and c: "cancel_phase ex self now cid tok (upper side) gp w = Inr (existing, w1)"
      and p: "ex_place_limit ex (venue w1) tok (upper side) gp sz (om_post_only self)
                [(''condition_id'', JStr cid)] = (res, v)"
  shows "\<exists>self' w'.
           place_or_replace ex now self w cid tok side price sz bb ba = Inr (res, self', w')
         \<and> live_get self' tok
             = (if res_success res \<and> res_venue_order_id res \<noteq> None
                   \<and> res_venue_order_id res \<noteq> Some []
                then existing @ [new_live_order self now cid tok (upper side) gp sz
                                   (the (res_venue_order_id res))]
                else existing)
         \<and> orders_tbl w'
             = orders_tbl w1 @ [place_row self now cid tok (upper side) gp sz bb ba res]
         \<and> row_status (place_row self now cid tok (upper side) gp sz bb ba res)
             = (if res_success res then ''PLACED'' else ''REJECTED'')"
proof -
  have a: "accepted res \<longleftrightarrow> res_success res \<and> res_venue_order_id res \<noteq> None
                   \<and> res_venue_order_id res \<noteq> Some []"
    by (cases "res_venue_order_id res") (simp_all add: accepted_def)
  have "place_or_replace ex now self w cid tok side price sz bb ba
      = Inr (res,
             self\<lparr>om_live := AList.update tok
                (if accepted res
                 then existing @ [new_live_order self now cid tok (upper side) gp sz
                                   (the (res_venue_order_id res))]
                 else existing) (om_live self)\<rparr>,
             w1\<lparr>venue := v,
                orders_tbl := orders_tbl w1
                  @ [place_row self now cid tok (upper side) gp sz bb ba res]\<rparr>)"
    unfolding place_or_replace_def Let_def g option.case place_guarded_def c sum.case prod.case p
    by (rule refl)
  moreover have "row_status (place_row self now cid tok (upper side) gp sz bb ba res)
             = (if res_success res then ''PLACED'' else ''REJECTED'')"
    by (simp add: place_row_def)
  ultimately show ?thesis
    unfolding a [symmetric] by (simp add: live_get_update)
qed

lemma demo_order_fields:
  "lo_side (demo_order vid side price created) = side"
  "lo_price (demo_order vid side price created) = price"
  "lo_venue_order_id (demo_order vid side price created) = vid"
  by (simp_all add: demo_order_def)

lemma demo_om_buy_fields:
  "live_get demo_om_buy ''T'' = [demo_order ''v1'' ''BUY'' (1 / 2) 95]"
  "om_max_orders_per_token demo_om_buy = 2"
  "om_post_only demo_om_buy = True"
  "om_tick_size demo_om_buy = Some (1 / 100)"
  by (simp_all add: demo_om_buy_def demo_om_def live_get_def)

lemma fixed_venue_fields:
  "ex_cancel (fixed_venue res ok) v vid = (ok, v)"
  "ex_place_limit (fixed_venue res ok) v tok side price sz po meta = (res, v)"
  by (simp_all add: fixed_venue_def)

lemma demo_guard_no_book: "guard_post_only demo_om_buy ''BUY'' p None None = Some p"
  by (simp add: guard_post_only_def guard_buy_def guard_sell_def upper_BUY Let_def)

theorem place_or_replace_live_witness:
  "\<exists>self' w'.
     place_or_replace (fixed_venue (venue_ok ''v2'') True) 100 demo_om_buy empty_world
        ''cond'' ''T'' ''BUY'' (52 / 100) 10 None None = Inr (venue_ok ''v2'', self', w')
     \<and> live_get self' ''T''
          = [new_live_order demo_om_buy 100 ''cond'' ''T'' ''BUY'' (52 / 100) 10 ''v2'']
     \<and> orders_tbl w'
          = [reprice_row demo_om_buy 100 ''cond'' ''T'' ''BUY'' (52 / 100)
               (demo_order ''v1'' ''BUY'' (1 / 2) 95) True,
             place_row demo_om_buy 100 ''cond'' ''T'' ''BUY'' (52 / 100) 10 None None
               (venue_ok ''v2'')]
     \<and> row_status (place_row demo_om_buy 100 ''cond'' ''T'' ''BUY'' (52 / 100) 10 None None
               (venue_ok ''v2'')) = ''PLACED''"
proof -
  let ?ex = "fixed_venue (venue_ok ''v2'') True"
  let ?w1 = "empty_world\<lparr>orders_tbl :=
               [reprice_row demo_om_buy 100 ''cond'' ''T'' ''BUY'' (52 / 100)
                  (demo_order ''v1'' ''BUY'' (1 / 2) 95) True]\<rparr>"
  have g: "guard_post_only demo_om_buy (upper ''BUY'') (52 / 100) None None = Some (52 / 100)"
    by (simp add: upper_BUY demo_guard_no_book)
  have pc: "price_changed demo_om_buy (1 / 2) (52 / 100)"
    by (simp add: price_changed_def demo_om_buy_fields)
  have c: "cancel_phase ?ex demo_om_buy 100 ''cond'' ''T'' (upper ''BUY'') (52 / 100) empty_world
             = Inr ([], ?w1)"
    unfolding upper_BUY cancel_phase_def demo_om_buy_fields
    using pc
    by (simp add: demo_order_fields demo_om_buy_fields fixed_venue_fields empty_world_def)
  have p: "ex_place_limit ?ex (venue ?w1) ''T'' (upper ''BUY'') (52 / 100) 10
             (om_post_only demo_om_buy) [(''condition_id'', JStr ''cond'')]
           = (venue_ok ''v2'', ())"
    by (simp add: fixed_venue_def)
  from place_or_replace_live [OF g c p] show ?thesis
    by (simp add: upper_BUY venue_ok_def empty_world_def)
qed

text \<open>
  C1 is not what the code does. \<^verbatim>\<open>place_or_replace\<close> has no SKIP branch: a quote equal to
  a live order (same side, same price, same size) is sent to the venue again, the new order
  is appended to \<open>live[token]\<close> beside the old one, and the control loop counts the placement.
  Evaluated here on a live BUY of 10 at 0.50 and the same quote.
\<close>

theorem place_same_quote_no_skip:
  "cmd_run_place_step (fixed_venue (venue_ok ''v2'') True) 100 demo_om_buy empty_world
       (CircuitBreaker_init demo_cfg 0) ''cond'' ''T''
       \<lparr>q_side = ''BUY'', q_price = 1 / 2, q_size = 10\<rparr> None None
     = Inr (venue_ok ''v2'',
            demo_om_buy\<lparr>om_live :=
              [(''T'', [demo_order ''v1'' ''BUY'' (1 / 2) 95,
                        new_live_order demo_om_buy 100 ''cond'' ''T'' ''BUY'' (1 / 2) 10 ''v2''])]\<rparr>,
            empty_world\<lparr>orders_tbl :=
              [place_row demo_om_buy 100 ''cond'' ''T'' ''BUY'' (1 / 2) 10 None None
                 (venue_ok ''v2'')]\<rparr>,
            record_place True (CircuitBreaker_init demo_cfg 0))
   \<and> res_raw (venue_ok ''v2'') = None
   \<and> is_skip (venue_ok ''v2'') = False
   \<and> live_get demo_om_buy ''T'' = [demo_order ''v1'' ''BUY'' (1 / 2) 95]
   \<and> cs_placed (cb_state (CircuitBreaker_init demo_cfg 0)) = 0
   \<and> cs_placed (cb_state (record_place True (CircuitBreaker_init demo_cfg 0))) = 1"
proof -
  let ?ex = "fixed_venue (venue_ok ''v2'') True"
  have npc: "\<not> price_changed demo_om_buy (1 / 2) (1 / 2)"
    by (simp add: price_changed_def demo_om_buy_fields)
  have c: "cancel_phase ?ex demo_om_buy 100 ''cond'' ''T'' ''BUY'' (1 / 2) empty_world
             = Inr ([demo_order ''v1'' ''BUY'' (1 / 2) 95], empty_world)"
    unfolding cancel_phase_def demo_om_buy_fields
    using npc
    by (simp add: demo_order_fields demo_om_buy_fields)
  have sk: "is_skip (venue_ok ''v2'') = False" by (simp add: is_skip_def venue_ok_def)
  have "place_or_replace ?ex 100 demo_om_buy empty_world ''cond'' ''T'' ''BUY'' (1 / 2) 10 None None
     = Inr (venue_ok ''v2'',
            demo_om_buy\<lparr>om_live :=
              [(''T'', [demo_order ''v1'' ''BUY'' (1 / 2) 95,
                        new_live_order demo_om_buy 100 ''cond'' ''T'' ''BUY'' (1 / 2) 10 ''v2''])]\<rparr>,
            empty_world\<lparr>orders_tbl :=
              [place_row demo_om_buy 100 ''cond'' ''T'' ''BUY'' (1 / 2) 10 None None
                 (venue_ok ''v2'')]\<rparr>)"
    unfolding place_or_replace_def Let_def upper_BUY demo_guard_no_book option.case
      place_guarded_def c
    by (simp add: fixed_venue_fields accepted_def venue_ok_def demo_om_buy_def empty_world_def)
  then have "cmd_run_place_step ?ex 100 demo_om_buy empty_world
       (CircuitBreaker_init demo_cfg 0) ''cond'' ''T''
       \<lparr>q_side = ''BUY'', q_price = 1 / 2, q_size = 10\<rparr> None None
     = Inr (venue_ok ''v2'',
            demo_om_buy\<lparr>om_live :=
              [(''T'', [demo_order ''v1'' ''BUY'' (1 / 2) 95,
                        new_live_order demo_om_buy 100 ''cond'' ''T'' ''BUY'' (1 / 2) 10 ''v2''])]\<rparr>,
            empty_world\<lparr>orders_tbl :=
              [place_row demo_om_buy 100 ''cond'' ''T'' ''BUY'' (1 / 2) 10 None None
                 (venue_ok ''v2'')]\<rparr>,
            record_place True (CircuitBreaker_init demo_cfg 0))"
    by (simp add: cmd_run_place_step_def sk venue_ok_def [of "''v2''", THEN arg_cong [where f = res_success]])
  moreover have "live_get demo_om_buy ''T'' = [demo_order ''v1'' ''BUY'' (1 / 2) 95]"
    by (simp add: live_get_def demo_om_buy_def)
  moreover have "cs_placed (cb_state (record_place True (CircuitBreaker_init demo_cfg 0))) = 1"
    by (simp add: record_place_def CircuitBreaker_init_def Let_def)
  moreover have "cs_placed (cb_state (CircuitBreaker_init demo_cfg 0)) = 0"
    by (simp add: CircuitBreaker_init_def)
  moreover have "res_raw (venue_ok ''v2'') = None" by (simp add: venue_ok_def)
  ultimately show ?thesis using sk by simp
qed

section \<open>Properties of the stale cancel\<close>

lemma cancel_all_length: "cancel_all ex v ids = (oks, v') \<Longrightarrow> length oks = length ids"
  by (induction ids arbitrary: v oks v') (auto split: prod.splits)

lemma cancel_all_append:
  "cancel_all ex v (xs @ ys) =
     (case cancel_all ex v xs of
        (oa, v1) \<Rightarrow> (case cancel_all ex v1 ys of (ob, v2) \<Rightarrow> (oa @ ob, v2)))"
  by (induction xs arbitrary: v) (auto split: prod.splits)

lemma cancel_stale_orders_eq:
  "cancel_stale_orders ex self now os (keep, c, w) =
     (case cancel_all ex (venue w) (map lo_venue_order_id (filter (stale self now) os)) of
        (oks, v) \<Rightarrow>
          (keep @ filter (\<lambda>o'. \<not> stale self now o') os,
           c + int (length (filter (\<lambda>ok. ok) oks)),
           w\<lparr>venue := v,
             orders_tbl := orders_tbl w
               @ map2 (stale_row self now) (filter (stale self now) os) oks\<rparr>))"
proof (induction os arbitrary: keep c w)
  case Nil
  then show ?case by simp
next
  case (Cons o' os)
  show ?case
  proof (cases "stale self now o'")
    case True
    obtain ok v1 where c1: "ex_cancel ex (venue w) (lo_venue_order_id o') = (ok, v1)"
      by (cases "ex_cancel ex (venue w) (lo_venue_order_id o')")
    obtain oks v2 where c2:
      "cancel_all ex v1 (map lo_venue_order_id (filter (stale self now) os)) = (oks, v2)"
      by (cases "cancel_all ex v1 (map lo_venue_order_id (filter (stale self now) os))")
    show ?thesis
      using True c1 c2 by (simp add: Cons.IH)
  next
    case False
    then show ?thesis by (simp add: Cons.IH)
  qed
qed

lemma stale_live_update [simp]: "stale (self\<lparr>om_live := l\<rparr>) now = stale self now"
  by (rule ext) (simp add: stale_def)

lemma stale_row_live_update [simp]: "stale_row (self\<lparr>om_live := l\<rparr>) now = stale_row self now"
  by (rule ext, rule ext) (simp add: stale_row_def post_only_int_def)

lemma cancel_stale_tokens_eq:
  "cancel_stale_tokens ex now items (self, c, w) =
     (case cancel_all ex (venue w)
             (map lo_venue_order_id (filter (stale self now) (concat (map snd items)))) of
        (oks, v) \<Rightarrow>
          (self\<lparr>om_live :=
              fold (\<lambda>(t, lst). AList.update t (filter (\<lambda>o'. \<not> stale self now o') lst)) items
                (om_live self)\<rparr>,
           c + int (length (filter (\<lambda>ok. ok) oks)),
           w\<lparr>venue := v,
             orders_tbl := orders_tbl w
               @ map2 (stale_row self now) (filter (stale self now) (concat (map snd items)))
                   oks\<rparr>))"
proof (induction items arbitrary: self c w)
  case Nil
  then show ?case by simp
next
  case (Cons it items)
  obtain t lst where it: "it = (t, lst)" by (cases it)
  let ?ids1 = "map lo_venue_order_id (filter (stale self now) lst)"
  let ?ids2 = "map lo_venue_order_id (filter (stale self now) (concat (map snd items)))"
  obtain oa v1 where a: "cancel_all ex (venue w) ?ids1 = (oa, v1)"
    by (cases "cancel_all ex (venue w) ?ids1")
  obtain ob v2 where b: "cancel_all ex v1 ?ids2 = (ob, v2)"
    by (cases "cancel_all ex v1 ?ids2")
  have la: "length oa = length (filter (stale self now) lst)"
    using cancel_all_length [OF a] by simp
  show ?case
    unfolding it
    by (simp add: cancel_stale_orders_eq a b Cons.IH cancel_all_append la)
qed

lemma update_append_notin:
  "k \<notin> fst ` set xs \<Longrightarrow> AList.update k v (xs @ (k, v0) # ys) = xs @ (k, v) # ys"
  by (induction xs) auto

lemma fold_update_distinct:
  "distinct (map fst (pre @ items)) \<Longrightarrow>
   fold (\<lambda>(t, lst). AList.update t (f lst)) items (map (\<lambda>(t, lst). (t, f lst)) pre @ items)
     = map (\<lambda>(t, lst). (t, f lst)) (pre @ items)"
proof (induction items arbitrary: pre)
  case Nil
  then show ?case by simp
next
  case (Cons it items)
  obtain t lst where it: "it = (t, lst)" by (cases it)
  have notin: "t \<notin> fst ` set pre" using Cons.prems by (auto simp: it)
  have notin': "t \<notin> fst ` set (map (\<lambda>(t, lst). (t, f lst)) pre)"
    using notin by (auto simp: image_iff)
  have "fold (\<lambda>(t, lst). AList.update t (f lst)) (it # items)
          (map (\<lambda>(t, lst). (t, f lst)) pre @ it # items)
      = fold (\<lambda>(t, lst). AList.update t (f lst)) items
          (map (\<lambda>(t, lst). (t, f lst)) (pre @ [it]) @ items)"
    by (simp add: it update_append_notin [OF notin'])
  also have "\<dots> = map (\<lambda>(t, lst). (t, f lst)) ((pre @ [it]) @ items)"
    using Cons.prems by (intro Cons.IH) simp
  finally show ?case by simp
qed

lemma fold_update_map:
  "distinct (map fst al) \<Longrightarrow>
   fold (\<lambda>(t, lst). AList.update t (f lst)) al al = map (\<lambda>(t, lst). (t, f lst)) al"
  using fold_update_distinct [of "[]" al f] by simp


lemma cancel_stale_eq:
  assumes d: "distinct (map fst (om_live om))"
      and ca: "cancel_all ex (venue w) (map lo_venue_order_id (stale_orders om now)) = (oks, v)"
  shows "cancel_stale ex now om w
           = (int (length (filter (\<lambda>ok. ok) oks)),
              om\<lparr>om_live := map (\<lambda>(t, lst). (t, filter (\<lambda>o'. \<not> stale om now o') lst))
                                (om_live om)\<rparr>,
              w\<lparr>venue := v,
                orders_tbl := orders_tbl w
                  @ map2 (stale_row om now) (stale_orders om now) oks\<rparr>)"
  using ca
  by (simp add: cancel_stale_def cancel_stale_tokens_eq stale_orders_def fold_update_map [OF d])

lemma demo_om_two_stale:
  "stale_orders demo_om_two 100
     = [demo_order ''v1'' ''BUY'' (1 / 2) 0, demo_order ''v2'' ''SELL'' (6 / 10) 1]"
  by (simp add: stale_orders_def stale_def demo_om_two_def demo_om_def demo_order_def)

lemma demo_om_two_cancel_all:
  "cancel_all (fixed_venue res True) (venue empty_world)
     (map lo_venue_order_id (stale_orders demo_om_two 100)) = ([True, True], ())"
  by (simp add: demo_om_two_stale fixed_venue_def)

lemma demo_om_two_distinct: "distinct (map fst (om_live demo_om_two))"
  by (simp add: demo_om_two_def)

text \<open>
  C3, as stated, fails in its second half: the control loop records one cancel event when
  \<^verbatim>\<open>cancel_stale\<close> returns a non-zero count, not one per successful cancel. Here two stale
  orders are cancelled with success and the breaker's deque grows by one.
\<close>

theorem cancel_step_counterexample:
  "fst (cancel_stale (fixed_venue (venue_ok ''x'') True) 100 demo_om_two empty_world) = 2
   \<and> length (cs_cancel_events (cb_state (CircuitBreaker_init demo_cfg 0))) = 0
   \<and> length (cs_cancel_events (cb_state (snd (snd
        (cmd_run_cancel_step (fixed_venue (venue_ok ''x'') True) 100 100 demo_om_two empty_world
           (CircuitBreaker_init demo_cfg 0)))))) = 1"
  by (simp add: cmd_run_cancel_step_def
        cancel_stale_eq [OF demo_om_two_distinct demo_om_two_cancel_all]
        record_cancel_def CircuitBreaker_init_def Let_def)

text \<open>
  C3, amended: for every state of the live-order table (a dictionary: distinct tokens)
  and every current time \<open>now\<close>, \<^verbatim>\<open>cancel_stale\<close> sends a venue cancel for exactly the live
  orders with \<open>now - created_ts \<ge> cancel_reprice_sec\<close>, in order, writes one row for each
  (CANCELED when the venue returned success, ERROR when not), removes exactly those orders
  from the table and returns the number of successful cancels. The control loop's
  stale-cancel step then records exactly one cancel event in the breaker when that number is
  not zero, and none when it is zero: the deque becomes its old content with the one
  timestamp appended, trimmed of leading events older than 60 s.
\<close>

theorem cancel_stale_spec:
  assumes d: "distinct (map fst (om_live om))"
      and ca: "cancel_all ex (venue w) (map lo_venue_order_id (stale_orders om now)) = (oks, v)"
  shows "cancel_stale ex now om w
           = (int (length (filter (\<lambda>ok. ok) oks)),
              om\<lparr>om_live := map (\<lambda>(t, lst). (t, filter (\<lambda>o'. \<not> stale om now o') lst))
                                (om_live om)\<rparr>,
              w\<lparr>venue := v,
                orders_tbl := orders_tbl w
                  @ map2 (stale_row om now) (stale_orders om now) oks\<rparr>)
       \<and> length oks = length (stale_orders om now)
       \<and> stale_orders om now
           = filter (\<lambda>o'. real_of_int (now - lo_created_ts o') \<ge> om_cancel_reprice_sec om)
               (concat (map snd (om_live om)))
       \<and> map row_status (map2 (stale_row om now) (stale_orders om now) oks)
           = map (\<lambda>ok. if ok then ''CANCELED'' else ''ERROR'') oks
       \<and> cs_cancel_events (cb_state (snd (snd (cmd_run_cancel_step ex now now_cb om w cb))))
           = (if True \<in> set oks
              then trim_events now_cb (cs_cancel_events (cb_state cb) @ [now_cb])
              else cs_cancel_events (cb_state cb))"
proof -
  note eq = cancel_stale_eq [OF d ca]
  have len: "length oks = length (stale_orders om now)"
    using cancel_all_length [OF ca] by simp
  have st: "stale_orders om now
           = filter (\<lambda>o'. real_of_int (now - lo_created_ts o') \<ge> om_cancel_reprice_sec om)
               (concat (map snd (om_live om)))"
    by (simp add: stale_orders_def stale_def [abs_def])
  have rows: "\<And>xs. length oks = length xs \<Longrightarrow>
           map row_status (map2 (stale_row om now) xs oks)
           = map (\<lambda>ok. if ok then ''CANCELED'' else ''ERROR'') oks"
  proof -
    fix xs :: "LiveOrderState list"
    assume "length oks = length xs"
    then show "map row_status (map2 (stale_row om now) xs oks)
           = map (\<lambda>ok. if ok then ''CANCELED'' else ''ERROR'') oks"
      by (induction oks xs rule: list_induct2) (simp_all add: stale_row_def cancel_status_def)
  qed
  have nz: "(int (length (filter (\<lambda>ok. ok) oks)) \<noteq> 0) = (True \<in> set oks)"
    by (induction oks) auto
  have ev: "cs_cancel_events (cb_state (snd (snd (cmd_run_cancel_step ex now now_cb om w cb))))
           = (if True \<in> set oks
              then trim_events now_cb (cs_cancel_events (cb_state cb) @ [now_cb])
              else cs_cancel_events (cb_state cb))"
    unfolding cmd_run_cancel_step_def eq prod.case nz
    by (simp add: record_cancel_def Let_def)
  from eq len st rows [OF len] ev show ?thesis by blast
qed

theorem cancel_stale_spec_witness:
  "cancel_stale (fixed_venue (venue_ok ''x'') True) 100 demo_om_two empty_world
     = (2,
        demo_om_two\<lparr>om_live := [(''T'', [demo_order ''v3'' ''BUY'' (4 / 10) 95])]\<rparr>,
        empty_world\<lparr>orders_tbl :=
          [stale_row demo_om_two 100 (demo_order ''v1'' ''BUY'' (1 / 2) 0) True,
           stale_row demo_om_two 100 (demo_order ''v2'' ''SELL'' (6 / 10) 1) True]\<rparr>)
   \<and> cs_cancel_events (cb_state (snd (snd
        (cmd_run_cancel_step (fixed_venue (venue_ok ''x'') True) 100 130 demo_om_two empty_world
           ((CircuitBreaker_init demo_cfg 0)
              \<lparr>cb_state := \<lparr>cs_placed = 0, cs_rejected = 0, cs_errors = 0,
                             cs_cancel_events = [50, 90]\<rparr>\<rparr>))))) = [90, 130]"
proof -
  let ?cb = "(CircuitBreaker_init demo_cfg 0)
              \<lparr>cb_state := \<lparr>cs_placed = 0, cs_rejected = 0, cs_errors = 0,
                             cs_cancel_events = [50, 90]\<rparr>\<rparr>"
  note sp = cancel_stale_spec [OF demo_om_two_distinct
      demo_om_two_cancel_all [of "venue_ok ''x''"], of 130 ?cb]
  have f: "map (\<lambda>(t, lst). (t, filter (\<lambda>o'. \<not> stale demo_om_two 100 o') lst))
             (om_live demo_om_two) = [(''T'', [demo_order ''v3'' ''BUY'' (4 / 10) 95])]"
    by (simp add: stale_def demo_om_two_def demo_om_def demo_order_def)
  from sp show ?thesis
    unfolding f demo_om_two_stale by (simp add: empty_world_def)
qed

section \<open>Properties of the fill simulator\<close>

lemma fills_since_append:
  "n \<le> length (trades_tbl w) \<Longrightarrow>
   fills_since n (w\<lparr>uuid_src := u, trades_tbl := trades_tbl w @ [t], orders_tbl := ot\<rparr>)
     = fills_since n w @ [fill_outcome t]"
  by (simp add: fills_since_def)

lemma fill_outcome_sim_trade_row:
  "fill_outcome (sim_trade_row self env step now intensity mid o' fc trade_id)
     = (lo_venue_order_id o', fc_fill_size fc, fc_status fc, lo_price o')"
  by (simp add: fill_outcome_def sim_trade_row_def)

lemma sim_orders_indep:
  assumes "n1 \<le> length (trades_tbl w1)" and "n2 \<le> length (trades_tbl w2)"
      and "fills_since n1 w1 = fills_since n2 w2"
  shows "loop_view n1 (sim_orders lib uuid4a env self step now1 tick mid intensity base_p os
                         (seen, keep, out, rng, w1))
       = loop_view n2 (sim_orders lib uuid4b env self step now2 tick mid intensity base_p os
                         (seen, keep, out, rng, w2))"
  using assms
proof (induction os arbitrary: seen keep out rng w1 w2)
  case Nil
  then show ?case by (simp add: loop_view_def)
next
  case (Cons o' os)
  show ?case
  proof (cases "lo_size o' \<le> 1 / 10 ^ 9")
    case True
    then show ?thesis using Cons.IH [OF Cons.prems] by simp
  next
    case big: False
    show ?thesis
    proof (cases "fill_order lib env tick mid base_p step o' rng")
      case (Inl e)
      then show ?thesis using big Cons.prems by (simp add: loop_view_def)
    next
      case (Inr r)
      obtain fco rng1 where r: "r = (fco, rng1)" by (cases r)
      show ?thesis
      proof (cases fco)
        case None
        then show ?thesis using big Inr r Cons.IH [OF Cons.prems] by simp
      next
        case (Some fc)
        obtain uid1 u1 where a: "uuid4a (uuid_src w1) = (uid1, u1)"
          by (cases "uuid4a (uuid_src w1)")
        obtain uid2 u2 where b: "uuid4b (uuid_src w2) = (uid2, u2)"
          by (cases "uuid4b (uuid_src w2)")
        let ?w1 = "w1\<lparr>uuid_src := u1,
                     trades_tbl := trades_tbl w1
                       @ [sim_trade_row self env step now1 intensity mid o' fc (''paper-'' @ uid1)],
                     orders_tbl := orders_tbl w1 @ [sim_order_row self step now1 o' fc]\<rparr>"
        let ?w2 = "w2\<lparr>uuid_src := u2,
                     trades_tbl := trades_tbl w2
                       @ [sim_trade_row self env step now2 intensity mid o' fc (''paper-'' @ uid2)],
                     orders_tbl := orders_tbl w2 @ [sim_order_row self step now2 o' fc]\<rparr>"
        have l1: "n1 \<le> length (trades_tbl ?w1)" using Cons.prems(1) by simp
        have l2: "n2 \<le> length (trades_tbl ?w2)" using Cons.prems(2) by simp
        have f: "fills_since n1 ?w1 = fills_since n2 ?w2"
          using Cons.prems
          by (simp add: fills_since_append fill_outcome_sim_trade_row)
        show ?thesis
          using big Inr r Some a b Cons.IH [OF l1 l2 f]
          by (simp add: Let_def)
      qed
    qed
  qed
qed

lemma sim_orders_mono:
  "n \<le> length (trades_tbl w) \<Longrightarrow>
   (case sim_orders lib uuid4 env self step now tick mid intensity base_p os
           (seen, keep, out, rng, w) of
      Inl (e, seen', rng', w') \<Rightarrow> n \<le> length (trades_tbl w')
    | Inr (keep', out', rng', w') \<Rightarrow> n \<le> length (trades_tbl w'))"
proof (induction os arbitrary: seen keep out rng w)
  case Nil
  then show ?case by simp
next
  case (Cons o' os)
  show ?case
  proof (cases "lo_size o' \<le> 1 / 10 ^ 9")
    case True
    then show ?thesis using Cons.IH [OF Cons.prems] by simp
  next
    case big: False
    show ?thesis
    proof (cases "fill_order lib env tick mid base_p step o' rng")
      case (Inl e)
      then show ?thesis using big Cons.prems by simp
    next
      case (Inr r)
      obtain fco rng1 where r: "r = (fco, rng1)" by (cases r)
      show ?thesis
      proof (cases fco)
        case None
        then show ?thesis using big Inr r Cons.IH [OF Cons.prems] by simp
      next
        case (Some fc)
        obtain uid1 u1 where a: "uuid4 (uuid_src w) = (uid1, u1)"
          by (cases "uuid4 (uuid_src w)")
        let ?w1 = "w\<lparr>uuid_src := u1,
                     trades_tbl := trades_tbl w
                       @ [sim_trade_row self env step now intensity mid o' fc (''paper-'' @ uid1)],
                     orders_tbl := orders_tbl w @ [sim_order_row self step now o' fc]\<rparr>"
        have l1: "n \<le> length (trades_tbl ?w1)" using Cons.prems by simp
        show ?thesis
          using big Inr r Some a Cons.IH [OF l1]
          by (simp add: Let_def)
      qed
    qed
  qed
qed


lemma loop_view_finish:
  assumes "loop_view n1 r1 = loop_view n2 r2"
  shows "run_view n1
           (case r1 of
              Inl (e, seen, rng, w') \<Rightarrow>
                Inl (e, self\<lparr>om_live := AList.update tok seen (om_live self), om_rng := rng\<rparr>, w')
            | Inr (keep, out, rng, w') \<Rightarrow>
                Inr (out, self\<lparr>om_live := AList.update tok keep (om_live self), om_rng := rng\<rparr>, w'))
       = run_view n2
           (case r2 of
              Inl (e, seen, rng, w') \<Rightarrow>
                Inl (e, self\<lparr>om_live := AList.update tok seen (om_live self), om_rng := rng\<rparr>, w')
            | Inr (keep, out, rng, w') \<Rightarrow>
                Inr (out, self\<lparr>om_live := AList.update tok keep (om_live self), om_rng := rng\<rparr>, w'))"
  using assms
  by (cases r1; cases r2) (auto simp: loop_view_def run_view_def split: prod.splits)

lemma simulate_fills_indep:
  assumes "n1 \<le> length (trades_tbl w1)" and "n2 \<le> length (trades_tbl w2)"
      and "fills_since n1 w1 = fills_since n2 w2"
  shows "run_view n1 (simulate_fills lib uuid4a env ex clock1 self w1 step)
       = run_view n2 (simulate_fills lib uuid4b env ex clock2 self w2 step)"
proof (cases "\<not> ex_is_paper ex \<or> \<not> env_sim_enable env \<or> live_get self (ss_token_id step) = []")
  case True
  then show ?thesis
    using assms(3) by (auto simp: simulate_fills_def Let_def run_view_def)
next
  case False
  then show ?thesis
    unfolding simulate_fills_def Let_def
    by (simp add: loop_view_finish [OF sim_orders_indep [OF assms]])
qed

lemma simulate_fills_mono:
  assumes "n \<le> length (trades_tbl w)"
  shows "(case simulate_fills lib uuid4 env ex clock self w step of
            Inl (e, self', w') \<Rightarrow> n \<le> length (trades_tbl w')
          | Inr (out, self', w') \<Rightarrow> n \<le> length (trades_tbl w'))"
proof (cases "\<not> ex_is_paper ex \<or> \<not> env_sim_enable env \<or> live_get self (ss_token_id step) = []")
  case True
  then show ?thesis using assms by (auto simp: simulate_fills_def Let_def)
next
  case False
  let ?now = "case ss_ts step of None \<Rightarrow> clock | Some t \<Rightarrow> t"
  let ?int = "case ss_intensity_override step of None \<Rightarrow> env_fill_intensity env | Some i \<Rightarrow> i"
  let ?r = "sim_orders lib uuid4 env self step ?now (tick_or self (1 / 10 ^ 3)) (ss_midpoint step)
              ?int (1 - exp (- max 0 ?int * max 0.1 (ss_dt_sec step)))
              (live_get self (ss_token_id step)) ([], [], empty_stats, om_rng self, w)"
  have m: "case ?r of
             Inl (e, seen', rng', w') \<Rightarrow> n \<le> length (trades_tbl w')
           | Inr (keep', out', rng', w') \<Rightarrow> n \<le> length (trades_tbl w')"
    by (rule sim_orders_mono [OF assms])
  have "simulate_fills lib uuid4 env ex clock self w step
      = (case ?r of
           Inl (e, seen, rng, w1) \<Rightarrow>
             Inl (e, self\<lparr>om_live := AList.update (ss_token_id step) seen (om_live self),
                          om_rng := rng\<rparr>, w1)
         | Inr (keep, out, rng, w1) \<Rightarrow>
             Inr (out, self\<lparr>om_live := AList.update (ss_token_id step) keep (om_live self),
                           om_rng := rng\<rparr>, w1))"
    using False unfolding simulate_fills_def Let_def by simp
  then show ?thesis using m by (cases ?r) (auto split: prod.splits)
qed

lemma sim_run_indep:
  assumes "n1 \<le> length (trades_tbl w1)" and "n2 \<le> length (trades_tbl w2)"
      and "fills_since n1 w1 = fills_since n2 w2"
  shows "run_view n1 (sim_run lib uuid4a env ex clk1 k1 steps outs self w1)
       = run_view n2 (sim_run lib uuid4b env ex clk2 k2 steps outs self w2)"
  using assms
proof (induction steps arbitrary: k1 k2 outs self w1 w2)
  case Nil
  then show ?case by (simp add: run_view_def)
next
  case (Cons step steps)
  let ?r1 = "simulate_fills lib uuid4a env ex (clk1 k1) self w1 step"
  let ?r2 = "simulate_fills lib uuid4b env ex (clk2 k2) self w2 step"
  have v: "run_view n1 ?r1 = run_view n2 ?r2"
    by (rule simulate_fills_indep [OF Cons.prems])
  have m1: "case ?r1 of Inl (e, self', w') \<Rightarrow> n1 \<le> length (trades_tbl w')
                      | Inr (out, self', w') \<Rightarrow> n1 \<le> length (trades_tbl w')"
    by (rule simulate_fills_mono [OF Cons.prems(1)])
  have m2: "case ?r2 of Inl (e, self', w') \<Rightarrow> n2 \<le> length (trades_tbl w')
                      | Inr (out, self', w') \<Rightarrow> n2 \<le> length (trades_tbl w')"
    by (rule simulate_fills_mono [OF Cons.prems(2)])
  show ?case
  proof (cases ?r1)
    case (Inl x1)
    then obtain x2 where x2: "?r2 = Inl x2" using v by (cases ?r2) (auto simp: run_view_def split: prod.splits)
    show ?thesis using v Inl x2 by (auto simp: run_view_def split: prod.splits)
  next
    case (Inr y1)
    then obtain y2 where y2: "?r2 = Inr y2" using v by (cases ?r2) (auto simp: run_view_def split: prod.splits)
    obtain out s1 w1' where y1: "y1 = (out, s1, w1')" by (cases y1)
    obtain out' s2 w2' where y2': "y2 = (out', s2, w2')" by (cases y2)
    have eq: "out' = out" "s2 = s1" "fills_since n1 w1' = fills_since n2 w2'"
      using v Inr y2 y1 y2' by (simp_all add: run_view_def)
    have l1: "n1 \<le> length (trades_tbl w1')" using m1 Inr y1 by simp
    have l2: "n2 \<le> length (trades_tbl w2')" using m2 y2 y2' by simp
    show ?thesis
      using Inr y2 y1 y2' eq(1,2) Cons.IH [OF l1 l2 eq(3)] by simp
  qed
qed

lemma fills_since_length: "fills_since (length (trades_tbl w)) w = []"
  by (simp add: fills_since_def)

text \<open>
  C9: two runs of the simulator from the same run identifier, the same initial live orders
  and the same steps (midpoint, best bid and ask, \<open>dt\<close>, intensity, tick and configuration)
  give the same sequence of fills \<open>(order, fill_size, status, price)\<close>, the same statistics
  and the same order manager at the end, whatever the clock readings, the source of
  \<^verbatim>\<open>uuid4\<close> and the rows already in the store. The generator starts from
  \<^verbatim>\<open>random.Random(seed)\<close> where the seed is computed from the run identifier alone and lies in
  \<open>[0, 2 ^ 32)\<close>.
\<close>

theorem paper_sim_deterministic:
  "run_view (length (trades_tbl w1))
     (sim_run lib uuid4a env ex clk1 k1 steps []
        ((OrderManager_init lib uuid_int run_id max_orders cancel_sec post_only tick_size)
           \<lparr>om_live := live0\<rparr>) w1)
   = run_view (length (trades_tbl w2))
     (sim_run lib uuid4b env ex clk2 k2 steps []
        ((OrderManager_init lib uuid_int run_id max_orders cancel_sec post_only tick_size)
           \<lparr>om_live := live0\<rparr>) w2)
   \<and> om_rng (OrderManager_init lib uuid_int run_id max_orders cancel_sec post_only tick_size)
       = rnd_seed lib (seed_from_run_id uuid_int run_id)
   \<and> 0 \<le> seed_from_run_id uuid_int run_id
   \<and> seed_from_run_id uuid_int run_id < 2 ^ 32"
proof -
  have "fills_since (length (trades_tbl w1)) w1 = fills_since (length (trades_tbl w2)) w2"
    by (simp add: fills_since_length)
  then have a: "run_view (length (trades_tbl w1))
     (sim_run lib uuid4a env ex clk1 k1 steps []
        ((OrderManager_init lib uuid_int run_id max_orders cancel_sec post_only tick_size)
           \<lparr>om_live := live0\<rparr>) w1)
   = run_view (length (trades_tbl w2))
     (sim_run lib uuid4b env ex clk2 k2 steps []
        ((OrderManager_init lib uuid_int run_id max_orders cancel_sec post_only tick_size)
           \<lparr>om_live := live0\<rparr>) w2)"
    by (intro sim_run_indep) simp_all
  have b: "om_rng (OrderManager_init lib uuid_int run_id max_orders cancel_sec post_only tick_size)
       = rnd_seed lib (seed_from_run_id uuid_int run_id)"
    by (simp add: OrderManager_init_def)
  have c: "0 \<le> seed_from_run_id uuid_int run_id \<and> seed_from_run_id uuid_int run_id < 2 ^ 32"
    by (simp add: seed_from_run_id_def Let_def split: option.split)
  from a b c show ?thesis by blast
qed

section \<open>Properties of the allocator\<close>

lemma weight_pos: "weight self f = Inr w \<Longrightarrow> 0 < w"
proof -
  assume a: "weight self f = Inr w"
  define liq where "liq = max (1 / 10 ^ 9) (mf_liquidity_num f)"
  define q where "q = exp (- ca_quality_k self * max 0 (- (mf_markout_sum f / real_of_int (max 1 (mf_fills f)))))
                        * (0.5 + 0.5 * min 1 (real_of_int (mf_fills f) / real_of_int (max 1 (mf_quotes f)) * 20))"
  have l: "0 < liq" unfolding liq_def by (rule less_le_trans [OF _ max.cobounded1]) simp
  have b: "0 < liq powr ca_liquidity_power self" using l by simp
  have m: "0 < max 0.05 (min 1.5 q)" by (rule less_le_trans [OF _ max.cobounded1]) simp
  from a have "w = liq powr ca_liquidity_power self * max 0.05 (min 1.5 q)"
    unfolding weight_def Let_def liq_def [symmetric] q_def [symmetric]
    by (simp split: if_splits)
  then show ?thesis using b m by (simp only: mult_pos_pos)
qed

lemma weights_Inr:
  "weights self fs = Inr ws \<Longrightarrow> length ws = length fs \<and> (\<forall>w\<in>set ws. 0 < w)"
proof (induction fs arbitrary: ws)
  case Nil
  then show ?case by simp
next
  case (Cons f fs)
  from Cons.prems obtain w ws' where w: "weight self f = Inr w" and ws': "weights self fs = Inr ws'"
    and e: "ws = w # ws'"
    by (auto split: sum.splits)
  from Cons.IH [OF ws'] weight_pos [OF w] show ?case by (simp add: e)
qed

lemma sum_list_pos_real:
  fixes ws :: "real list"
  shows "ws \<noteq> [] \<Longrightarrow> (\<forall>w\<in>set ws. 0 < w) \<Longrightarrow> 0 < sum_list ws"
  by (induction ws) (auto intro: add_pos_nonneg sum_list_nonneg less_imp_le)

lemma update_absent: "k \<notin> fst ` set al \<Longrightarrow> AList.update k v al = al @ [(k, v)]"
  by (induction al) auto

lemma update_present_keys: "k \<in> fst ` set al \<Longrightarrow> map fst (AList.update k v al) = map fst al"
  by (simp add: update_keys)

lemma dget_update: "dget (AList.update k v al) k' = (if k' = k then v else dget al k')"
  by (simp add: dget_def update_conv')

lemma alist_eqI:
  "map fst xs = map fst ys \<Longrightarrow> distinct (map fst xs) \<Longrightarrow>
   (\<And>k v. (k, v) \<in> set ys \<Longrightarrow> map_of xs k = Some v) \<Longrightarrow> xs = ys"
proof (induction xs arbitrary: ys)
  case Nil
  then show ?case by simp
next
  case (Cons x xs)
  obtain k v where x: "x = (k, v)" by (cases x)
  from Cons.prems(1) obtain y ys' where ys: "ys = y # ys'" by (cases ys) auto
  obtain k' v' where y: "y = (k', v')" by (cases y)
  from Cons.prems(1) have kk: "k' = k" and t: "map fst xs = map fst ys'" by (simp_all add: x ys y)
  have "map_of (x # xs) k = Some v'" by (rule Cons.prems(3)) (simp add: ys y kk)
  then have vv: "v' = v" by (simp add: x)
  have d: "distinct (map fst xs)" and kn: "k \<notin> fst ` set xs" using Cons.prems(2) by (simp_all add: x)
  have "xs = ys'"
  proof (rule Cons.IH [OF t d])
    fix k2 v2
    assume m: "(k2, v2) \<in> set ys'"
    then have "k2 \<in> set (map fst ys')" by force
    then have "k2 \<in> fst ` set xs" unfolding t [symmetric] by simp
    then have ne: "k2 \<noteq> k" using kn by auto
    have "map_of (x # xs) k2 = Some v2" by (rule Cons.prems(3)) (simp add: ys m)
    then show "map_of xs k2 = Some v2" using ne by (simp add: x)
  qed
  then show ?case by (simp add: x ys y kk vv)
qed

lemma first_pass_distinct:
  "distinct (map fst pre @ map (\<lambda>(f, w). mf_condition_id f) zs) \<Longrightarrow>
   first_pass B s zs pre = pre @ map (\<lambda>(f, w). (mf_condition_id f, B * (w / s))) zs"
proof (induction zs arbitrary: pre)
  case Nil
  then show ?case by simp
next
  case (Cons z zs)
  obtain f w where z: "z = (f, w)" by (cases z)
  have notin: "mf_condition_id f \<notin> fst ` set pre" using Cons.prems by (auto simp: z)
  have d: "distinct (map fst (pre @ [(mf_condition_id f, B * (w / s))])
                       @ map (\<lambda>(f, w). mf_condition_id f) zs)"
    using Cons.prems by (auto simp: z)
  show ?case
    using Cons.IH [OF d] by (simp add: z update_absent [OF notin])
qed

text \<open>The loop that enforces the minimum, in closed form.\<close>

lemma enforce_min_closed:
  "distinct (map fst fixed @ map (\<lambda>(i, f, w). mf_condition_id f) items) \<Longrightarrow>
   enforce_min mn alloc items (fixed, rem, ri)
     = (fixed @ map (\<lambda>(i, f, w). (mf_condition_id f, mn))
                  (filter (\<lambda>(i, f, w). dget alloc (mf_condition_id f) < mn) items),
        rem - mn * real (length (filter (\<lambda>(i, f, w). dget alloc (mf_condition_id f) < mn) items)),
        filter (\<lambda>(j, g, u). j \<notin> fst ` set (filter (\<lambda>(i, f, w). dget alloc (mf_condition_id f) < mn) items)) ri)"
proof (induction items arbitrary: fixed rem ri)
  case Nil
  then show ?case by simp
next
  case (Cons z items)
  obtain i f w where z: "z = (i, f, w)" by (cases z)
  let ?P = "\<lambda>(i, f, w). dget alloc (mf_condition_id f) < mn"
  show ?case
  proof (cases "dget alloc (mf_condition_id f) < mn")
    case True
    have notin: "mf_condition_id f \<notin> fst ` set fixed" using Cons.prems by (auto simp: z)
    have u: "AList.update (mf_condition_id f) mn fixed = fixed @ [(mf_condition_id f, mn)]"
      by (rule update_absent [OF notin])
    have d: "distinct (map fst (fixed @ [(mf_condition_id f, mn)])
                        @ map (\<lambda>(i, f, w). mf_condition_id f) items)"
      using Cons.prems by (auto simp: z)
    have ff: "filter (\<lambda>(j, g, u). j \<notin> fst ` set (filter ?P items))
                (filter (\<lambda>(j, g, u). j \<noteq> i) ri)
              = filter (\<lambda>(j, g, u). j \<notin> fst ` set (filter ?P (z # items))) ri"
      using True by (auto simp: z intro!: filter_cong)
    have ar: "rem - mn - mn * real (length (filter ?P items))
                = rem - mn * real (length (filter ?P (z # items)))"
      using True by (simp add: z algebra_simps)
    have "enforce_min mn alloc (z # items) (fixed, rem, ri)
            = enforce_min mn alloc items
                (fixed @ [(mf_condition_id f, mn)], rem - mn, filter (\<lambda>(j, g, u). j \<noteq> i) ri)"
      using True by (simp add: z u)
    also have "\<dots> = ((fixed @ [(mf_condition_id f, mn)])
                        @ map (\<lambda>(i, f, w). (mf_condition_id f, mn)) (filter ?P items),
                      rem - mn - mn * real (length (filter ?P items)),
                      filter (\<lambda>(j, g, u). j \<notin> fst ` set (filter ?P items))
                        (filter (\<lambda>(j, g, u). j \<noteq> i) ri))"
      by (rule Cons.IH [OF d])
    also have "\<dots> = (fixed @ map (\<lambda>(i, f, w). (mf_condition_id f, mn)) (filter ?P (z # items)),
                      rem - mn * real (length (filter ?P (z # items))),
                      filter (\<lambda>(j, g, u). j \<notin> fst ` set (filter ?P (z # items))) ri)"
      unfolding ff ar using True by (simp add: z)
    finally show ?thesis .
  next
    case False
    have d: "distinct (map fst fixed @ map (\<lambda>(i, f, w). mf_condition_id f) items)"
      using Cons.prems by (auto simp: z)
    have "enforce_min mn alloc (z # items) (fixed, rem, ri)
            = enforce_min mn alloc items (fixed, rem, ri)"
      using False by (simp add: z)
    also note Cons.IH [OF d]
    finally show ?thesis using False by (simp add: z)
  qed
qed

lemma reallocate_fst:
  "(\<And>i f w. (i, f, w) \<in> set ri \<Longrightarrow> mf_condition_id f \<in> fst ` set alloc) \<Longrightarrow>
   map fst (reallocate r s2 ri alloc) = map fst alloc"
proof (induction ri arbitrary: alloc)
  case Nil
  then show ?case by simp
next
  case (Cons z ri)
  obtain i f w where z: "z = (i, f, w)" by (cases z)
  let ?a = "AList.update (mf_condition_id f) (r * (w / max (1 / 10 ^ 12) s2)) alloc"
  have p: "mf_condition_id f \<in> fst ` set alloc" using Cons.prems [of i f w] by (simp add: z)
  have k: "map fst ?a = map fst alloc" by (rule update_present_keys [OF p])
  have "map fst (reallocate r s2 ri ?a) = map fst ?a"
  proof (rule Cons.IH)
    fix i' f' w'
    assume "(i', f', w') \<in> set ri"
    then have "mf_condition_id f' \<in> fst ` set alloc" using Cons.prems [of i' f' w'] by simp
    then have "mf_condition_id f' \<in> set (map fst alloc)" by simp
    then show "mf_condition_id f' \<in> fst ` set ?a" unfolding k [symmetric] by simp
  qed
  then show ?case unfolding z by (simp only: reallocate.simps k)
qed

lemma reallocate_other:
  "k \<notin> (\<lambda>(i, f, w). mf_condition_id f) ` set ri \<Longrightarrow>
   map_of (reallocate r s2 ri alloc) k = map_of alloc k"
proof (induction ri arbitrary: alloc)
  case Nil
  then show ?case by simp
next
  case (Cons z ri)
  obtain i f w where z: "z = (i, f, w)" by (cases z)
  have ne: "k \<noteq> mf_condition_id f" and n: "k \<notin> (\<lambda>(i, f, w). mf_condition_id f) ` set ri"
    using Cons.prems by (auto simp: z)
  show ?case using Cons.IH [OF n] ne by (simp add: z update_conv')
qed

lemma reallocate_key:
  "distinct (map (\<lambda>(i, f, w). mf_condition_id f) ri) \<Longrightarrow> (i, f, w) \<in> set ri \<Longrightarrow>
   map_of (reallocate r s2 ri alloc) (mf_condition_id f) = Some (r * (w / max (1 / 10 ^ 12) s2))"
proof (induction ri arbitrary: alloc)
  case Nil
  then show ?case by simp
next
  case (Cons z ri)
  obtain i' f' w' where z: "z = (i', f', w')" by (cases z)
  have d: "distinct (map (\<lambda>(i, f, w). mf_condition_id f) ri)"
    and n: "mf_condition_id f' \<notin> (\<lambda>(i, f, w). mf_condition_id f) ` set ri"
    using Cons.prems(1) by (auto simp: z)
  show ?case
  proof (cases "(i, f, w) \<in> set ri")
    case True
    from Cons.IH [OF d True] show ?thesis by (simp add: z)
  next
    case False
    with Cons.prems(2) have e: "i' = i" "f' = f" "w' = w" by (simp_all add: z)
    show ?thesis using reallocate_other [OF n] by (simp add: z e update_conv')
  qed
qed

lemma enforce_max_fst:
  "enforce_max mx fs (alloc, ov, un) = (alloc', ov', un') \<Longrightarrow>
   (\<And>f. f \<in> set fs \<Longrightarrow> mf_condition_id f \<in> fst ` set alloc) \<Longrightarrow>
   map fst alloc' = map fst alloc"
proof (induction fs arbitrary: alloc ov un)
  case Nil
  then show ?case by simp
next
  case (Cons f fs)
  let ?c = "mf_condition_id f"
  have p: "?c \<in> fst ` set alloc" using Cons.prems(2) [of f] by simp
  show ?case
  proof (cases "dget alloc ?c > mx")
    case True
    have k: "map fst (AList.update ?c mx alloc) = map fst alloc"
      by (rule update_present_keys [OF p])
    from True Cons.prems(1) have e:
      "enforce_max mx fs (AList.update ?c mx alloc, ov + (dget alloc ?c - mx), un)
         = (alloc', ov', un')"
      by (simp add: Let_def)
    have "map fst alloc' = map fst (AList.update ?c mx alloc)"
    proof (rule Cons.IH [OF e])
      fix g
      assume "g \<in> set fs"
      then have "mf_condition_id g \<in> set (map fst alloc)" using Cons.prems(2) [of g] by simp
      then show "mf_condition_id g \<in> fst ` set (AList.update ?c mx alloc)"
        unfolding k [symmetric] by simp
    qed
    then show ?thesis by (simp only: k)
  next
    case False
    with Cons.prems(1) have e:
      "enforce_max mx fs (alloc, ov, un @ [?c]) = (alloc', ov', un')"
      by (simp add: Let_def)
    show ?thesis by (rule Cons.IH [OF e]) (use Cons.prems(2) in simp)
  qed
qed

lemma enforce_max_closed:
  "enforce_max mx fs (alloc, ov, un) = (alloc', ov', un') \<Longrightarrow>
   distinct (map mf_condition_id fs) \<Longrightarrow>
   ov' = ov + sum_list (map (\<lambda>f. dget alloc (mf_condition_id f) - mx)
                          (filter (\<lambda>f. dget alloc (mf_condition_id f) > mx) fs))
   \<and> un' = un @ map mf_condition_id (filter (\<lambda>f. \<not> dget alloc (mf_condition_id f) > mx) fs)
   \<and> (\<forall>k. map_of alloc' k
            = (if k \<in> mf_condition_id ` set (filter (\<lambda>f. dget alloc (mf_condition_id f) > mx) fs)
               then Some mx else map_of alloc k))"
proof (induction fs arbitrary: alloc ov un)
  case Nil
  then show ?case by simp
next
  case (Cons f fs)
  let ?c = "mf_condition_id f"
  have d: "distinct (map mf_condition_id fs)" and n: "?c \<notin> mf_condition_id ` set fs"
    using Cons.prems(2) by simp_all
  show ?case
  proof (cases "dget alloc ?c > mx")
    case True
    let ?a = "AList.update ?c mx alloc"
    from True Cons.prems(1) have e:
      "enforce_max mx fs (?a, ov + (dget alloc ?c - mx), un) = (alloc', ov', un')"
      by (simp add: Let_def)
    have same: "\<And>g. g \<in> set fs \<Longrightarrow> dget ?a (mf_condition_id g) = dget alloc (mf_condition_id g)"
    proof -
      fix g
      assume "g \<in> set fs"
      then have "mf_condition_id g \<in> mf_condition_id ` set fs" by (rule imageI)
      then have "mf_condition_id g \<noteq> ?c" using n by (intro notI) simp
      then show "dget ?a (mf_condition_id g) = dget alloc (mf_condition_id g)"
        by (simp add: dget_update)
    qed
    have f1: "filter (\<lambda>f. dget ?a (mf_condition_id f) > mx) fs
                = filter (\<lambda>f. dget alloc (mf_condition_id f) > mx) fs"
      by (rule filter_cong) (simp_all add: same)
    have f2: "filter (\<lambda>f. \<not> dget ?a (mf_condition_id f) > mx) fs
                = filter (\<lambda>f. \<not> dget alloc (mf_condition_id f) > mx) fs"
      by (rule filter_cong) (simp_all add: same)
    have m1: "map (\<lambda>f. dget ?a (mf_condition_id f) - mx)
                (filter (\<lambda>f. dget alloc (mf_condition_id f) > mx) fs)
              = map (\<lambda>f. dget alloc (mf_condition_id f) - mx)
                (filter (\<lambda>f. dget alloc (mf_condition_id f) > mx) fs)"
      by (rule map_cong) (simp_all add: same)
    from Cons.IH [OF e d] have
      o: "ov' = ov + (dget alloc ?c - mx)
                  + sum_list (map (\<lambda>f. dget alloc (mf_condition_id f) - mx)
                      (filter (\<lambda>f. dget alloc (mf_condition_id f) > mx) fs))"
      and u: "un' = un @ map mf_condition_id
                           (filter (\<lambda>f. \<not> dget alloc (mf_condition_id f) > mx) fs)"
      and m: "\<And>k. map_of alloc' k
            = (if k \<in> mf_condition_id ` set (filter (\<lambda>f. dget alloc (mf_condition_id f) > mx) fs)
               then Some mx else map_of ?a k)"
      unfolding f1 f2 m1 by blast+
    show ?thesis
    proof (intro conjI allI)
      show "ov' = ov + sum_list (map (\<lambda>f. dget alloc (mf_condition_id f) - mx)
                          (filter (\<lambda>f. dget alloc (mf_condition_id f) > mx) (f # fs)))"
        using True o by simp
      show "un' = un @ map mf_condition_id
                         (filter (\<lambda>f. \<not> dget alloc (mf_condition_id f) > mx) (f # fs))"
        using True u by simp
      fix k
      show "map_of alloc' k
            = (if k \<in> mf_condition_id ` set (filter (\<lambda>f. dget alloc (mf_condition_id f) > mx) (f # fs))
               then Some mx else map_of alloc k)"
        unfolding m using True by (auto simp: update_conv')
    qed
  next
    case False
    with Cons.prems(1) have e:
      "enforce_max mx fs (alloc, ov, un @ [?c]) = (alloc', ov', un')"
      by (simp add: Let_def)
    from Cons.IH [OF e d] show ?thesis using False by simp
  qed
qed

lemma spread_overflow_fst:
  "set un \<subseteq> fst ` set alloc \<Longrightarrow> map fst (spread_overflow mx add un alloc) = map fst alloc"
proof (induction un arbitrary: alloc)
  case Nil
  then show ?case by simp
next
  case (Cons c un)
  let ?a = "AList.update c (min mx (dget alloc c + add)) alloc"
  have k: "map fst ?a = map fst alloc" by (rule update_present_keys) (use Cons.prems in simp)
  have "set un \<subseteq> set (map fst alloc)" using Cons.prems by simp
  then have "set un \<subseteq> fst ` set ?a" unfolding k [symmetric] by simp
  from Cons.IH [OF this] show ?case by (simp only: spread_overflow.simps k)
qed

lemma spread_overflow_map_of:
  "distinct un \<Longrightarrow>
   map_of (spread_overflow mx add un alloc) k
     = (if k \<in> set un then Some (min mx (dget alloc k + add)) else map_of alloc k)"
proof (induction un arbitrary: alloc)
  case Nil
  then show ?case by simp
next
  case (Cons c un)
  let ?a = "AList.update c (min mx (dget alloc c + add)) alloc"
  have d: "distinct un" and n: "c \<notin> set un" using Cons.prems by simp_all
  have "map_of (spread_overflow mx add (c # un) alloc) k
          = (if k \<in> set un then Some (min mx (dget ?a k + add)) else map_of ?a k)"
    by (simp only: spread_overflow.simps Cons.IH [OF d])
  also have "\<dots> = (if k \<in> set (c # un) then Some (min mx (dget alloc k + add))
                     else map_of alloc k)"
    using n by (auto simp: dget_update update_conv')
  finally show ?case .
qed

lemma dict_update_fst:
  "fst ` set fixed \<subseteq> fst ` set alloc \<Longrightarrow> map fst (dict_update alloc fixed) = map fst alloc"
proof (induction fixed arbitrary: alloc)
  case Nil
  then show ?case by simp
next
  case (Cons z fixed)
  obtain c x where z: "z = (c, x)" by (cases z)
  have k: "map fst (AList.update c x alloc) = map fst alloc"
    by (rule update_present_keys) (use Cons.prems in \<open>simp add: z\<close>)
  have "fst ` set fixed \<subseteq> set (map fst alloc)" using Cons.prems by simp
  then have "fst ` set fixed \<subseteq> fst ` set (AList.update c x alloc)" unfolding k [symmetric] by simp
  from Cons.IH [OF this] show ?case by (simp only: z dict_update.simps k)
qed

lemma dict_update_map_of:
  "distinct (map fst fixed) \<Longrightarrow>
   map_of (dict_update alloc fixed) k
     = (case map_of fixed k of None \<Rightarrow> map_of alloc k | Some v \<Rightarrow> Some v)"
proof (induction fixed arbitrary: alloc)
  case Nil
  then show ?case by simp
next
  case (Cons z fixed)
  obtain c x where z: "z = (c, x)" by (cases z)
  have d: "distinct (map fst fixed)" and n: "c \<notin> fst ` set fixed"
    using Cons.prems by (simp_all add: z)
  have nn: "map_of fixed c = None" using n by (simp add: map_of_eq_None_iff)
  show ?case
    using Cons.IH [OF d, of "AList.update c x alloc"] nn
    by (auto simp: z update_conv' split: option.splits)
qed

text \<open>Association lists keyed by the identifiers of a list of markets with weights.\<close>

lemma keyed_fst:
  "map fst (map (\<lambda>(f, w). (mf_condition_id f, g w)) zs) = map (\<lambda>(f, w). mf_condition_id f) zs"
  by (induction zs) auto

lemma keyed_get:
  "distinct (map (\<lambda>(f, w). mf_condition_id f) zs) \<Longrightarrow> (f, w) \<in> set zs \<Longrightarrow>
   map_of (map (\<lambda>(f, w). (mf_condition_id f, g w)) zs) (mf_condition_id f) = Some (g w)"
proof (induction zs)
  case Nil
  then show ?case by simp
next
  case (Cons z zs)
  obtain f' w' where z: "z = (f', w')" by (cases z)
  show ?case
  proof (cases "(f, w) = z")
    case True
    then show ?thesis by (simp add: z)
  next
    case False
    with Cons.prems(2) have m: "(f, w) \<in> set zs" by simp
    then have "mf_condition_id f \<in> (\<lambda>(f, w). mf_condition_id f) ` set zs" by force
    then have ne: "mf_condition_id f \<noteq> mf_condition_id f'" using Cons.prems(1) by (auto simp: z)
    have "distinct (map (\<lambda>(f, w). mf_condition_id f) zs)" using Cons.prems(1) by simp
    from Cons.IH [OF this m] ne show ?thesis by (simp add: z)
  qed
qed

lemma keyed_dget:
  "distinct (map (\<lambda>(f, w). mf_condition_id f) zs) \<Longrightarrow> (f, w) \<in> set zs \<Longrightarrow>
   dget (map (\<lambda>(f, w). (mf_condition_id f, g w)) zs) (mf_condition_id f) = g w"
  by (simp add: dget_def keyed_get)

lemma keyed_unique:
  "distinct (map (\<lambda>(f, w). mf_condition_id f) zs) \<Longrightarrow> (f, w) \<in> set zs \<Longrightarrow>
   (f', w') \<in> set zs \<Longrightarrow> mf_condition_id f' = mf_condition_id f \<Longrightarrow> w' = w"
proof -
  assume d: "distinct (map (\<lambda>(f, w). mf_condition_id f) zs)"
     and a: "(f, w) \<in> set zs" and b: "(f', w') \<in> set zs"
     and e: "mf_condition_id f' = mf_condition_id f"
  have "map_of (map (\<lambda>(f, w). (mf_condition_id f, w)) zs) (mf_condition_id f) = Some w"
    by (rule keyed_get [OF d a])
  moreover have "map_of (map (\<lambda>(f, w). (mf_condition_id f, w)) zs) (mf_condition_id f') = Some w'"
    by (rule keyed_get [OF d b])
  ultimately show "w' = w" by (simp add: e)
qed

lemma keyed_eqI:
  assumes d: "distinct (map (\<lambda>(f, w). mf_condition_id f) zs)"
      and k: "map fst al = map (\<lambda>(f, w). mf_condition_id f) zs"
      and v: "\<And>f w. (f, w) \<in> set zs \<Longrightarrow> map_of al (mf_condition_id f) = Some (g w)"
  shows "al = map (\<lambda>(f, w). (mf_condition_id f, g w)) zs"
proof (rule alist_eqI)
  show "map fst al = map fst (map (\<lambda>(f, w). (mf_condition_id f, g w)) zs)"
    by (simp only: k keyed_fst)
  show "distinct (map fst al)" by (simp only: k d)
  fix k' v'
  assume "(k', v') \<in> set (map (\<lambda>(f, w). (mf_condition_id f, g w)) zs)"
  then obtain f w where m: "(f, w) \<in> set zs" and e: "k' = mf_condition_id f" "v' = g w"
    by auto
  show "map_of al k' = Some v'" unfolding e by (rule v [OF m])
qed

text \<open>Merging the pins.\<close>

lemma keyed_filter_get:
  "distinct (map (\<lambda>(f, w). mf_condition_id f) zs) \<Longrightarrow> (f, w) \<in> set zs \<Longrightarrow>
   map_of (map (\<lambda>(f, w). (mf_condition_id f, g w)) (filter (\<lambda>(f, w). P w) zs)) (mf_condition_id f)
     = (if P w then Some (g w) else None)"
proof -
  assume d: "distinct (map (\<lambda>(f, w). mf_condition_id f) zs)" and m: "(f, w) \<in> set zs"
  let ?fz = "filter (\<lambda>(f, w). P w) zs"
  have df: "distinct (map (\<lambda>(f, w). mf_condition_id f) ?fz)"
    using d by (rule distinct_map_filter)
  show ?thesis
  proof (cases "P w")
    case True
    then have "(f, w) \<in> set ?fz" using m by simp
    from keyed_get [OF df this] True show ?thesis by simp
  next
    case False
    have "mf_condition_id f \<notin> fst ` set (map (\<lambda>(f, w). (mf_condition_id f, g w)) ?fz)"
    proof
      assume "mf_condition_id f \<in> fst ` set (map (\<lambda>(f, w). (mf_condition_id f, g w)) ?fz)"
      then obtain f' w' where m': "(f', w') \<in> set zs" and p: "P w'"
        and e: "mf_condition_id f' = mf_condition_id f" by force
      from keyed_unique [OF d m m' e] p False show False by simp
    qed
    then have "map_of (map (\<lambda>(f, w). (mf_condition_id f, g w)) ?fz) (mf_condition_id f) = None"
      by (rule iffD2 [OF map_of_eq_None_iff])
    then show ?thesis using False by simp
  qed
qed

lemma merge_pins:
  assumes d: "distinct (map (\<lambda>(f, w). mf_condition_id f) zs)"
  shows "dict_update (map (\<lambda>(f, w). (mf_condition_id f, g w)) zs)
           (map (\<lambda>(f, w). (mf_condition_id f, mn)) (filter (\<lambda>(f, w). P w) zs))
         = map (\<lambda>(f, w). (mf_condition_id f, if P w then mn else g w)) zs"
proof (rule keyed_eqI [OF d])
  let ?al = "map (\<lambda>(f, w). (mf_condition_id f, g w)) zs"
  let ?fx = "map (\<lambda>(f, w). (mf_condition_id f, mn)) (filter (\<lambda>(f, w). P w) zs)"
  have sub: "fst ` set ?fx \<subseteq> fst ` set ?al" by force
  show "map fst (dict_update ?al ?fx) = map (\<lambda>(f, w). mf_condition_id f) zs"
    by (simp only: dict_update_fst [OF sub] keyed_fst)
  have df: "distinct (map fst ?fx)"
    unfolding keyed_fst using d by (rule distinct_map_filter)
  fix f w
  assume m: "(f, w) \<in> set zs"
  show "map_of (dict_update ?al ?fx) (mf_condition_id f) = Some (if P w then mn else g w)"
    unfolding dict_update_map_of [OF df] keyed_filter_get [OF d m] keyed_get [OF d m]
    by simp
qed

lemma overflow_conv:
  "(\<And>f w. (f, w) \<in> set zs \<Longrightarrow> v f = u w) \<Longrightarrow>
   sum_list (map (\<lambda>f. v f - mx) (filter (\<lambda>f. v f > mx) (map fst zs)))
     = overflow_of mx (map u (map snd zs))"
proof (induction zs)
  case Nil
  then show ?case by (simp add: overflow_of_def)
next
  case (Cons z zs)
  obtain f w where z: "z = (f, w)" by (cases z)
  have e: "v f = u w" using Cons.prems [of f w] by (simp add: z)
  have "sum_list (map (\<lambda>f. v f - mx) (filter (\<lambda>f. v f > mx) (map fst zs)))
          = overflow_of mx (map u (map snd zs))"
    by (rule Cons.IH) (use Cons.prems in simp)
  then show ?case by (simp add: z e overflow_of_def)
qed

lemma under_conv:
  "(\<And>f w. (f, w) \<in> set zs \<Longrightarrow> v f = u w) \<Longrightarrow>
   length (filter (\<lambda>f. \<not> v f > mx) (map fst zs)) = n_under mx (map u (map snd zs))"
proof (induction zs)
  case Nil
  then show ?case by (simp add: n_under_def)
next
  case (Cons z zs)
  obtain f w where z: "z = (f, w)" by (cases z)
  have e: "v f = u w" using Cons.prems [of f w] by (simp add: z)
  have "length (filter (\<lambda>f. \<not> v f > mx) (map fst zs)) = n_under mx (map u (map snd zs))"
    by (rule Cons.IH) (use Cons.prems in simp)
  then show ?case by (simp add: z e n_under_def)
qed

lemma map_cid_fst: "map mf_condition_id (map fst zs) = map (\<lambda>(f, w). mf_condition_id f) zs"
  by (induction zs) auto

text \<open>The loop over the maximum and the spread of the overflow, in closed form.\<close>

lemma cap_stage:
  assumes d: "distinct (map (\<lambda>(f, w). mf_condition_id f) zs)"
      and ex: "enforce_max mx (map fst zs) (map (\<lambda>(f, w). (mf_condition_id f, u w)) zs, 0, [])
                 = (a2, ov, un)"
  shows "(if ov > 0 \<and> un \<noteq> [] then spread_overflow mx (ov / real (length un)) un a2 else a2)
           = map (\<lambda>(f, w). (mf_condition_id f, capped mx (map u (map snd zs)) (u w))) zs"
proof -
  let ?a1 = "map (\<lambda>(f, w). (mf_condition_id f, u w)) zs"
  let ?xs = "map u (map snd zs)"
  let ?v = "\<lambda>f. dget ?a1 (mf_condition_id f)"
  let ?over = "filter (\<lambda>f. ?v f > mx) (map fst zs)"
  let ?under = "filter (\<lambda>f. \<not> ?v f > mx) (map fst zs)"
  let ?a3 = "if ov > 0 \<and> un \<noteq> [] then spread_overflow mx (ov / real (length un)) un a2 else a2"
  have dg: "\<And>f w. (f, w) \<in> set zs \<Longrightarrow> ?v f = u w" by (rule keyed_dget [OF d])
  have df: "distinct (map mf_condition_id (map fst zs))" unfolding map_cid_fst by (rule d)
  from enforce_max_closed [OF ex df] have
    ov0: "ov = 0 + sum_list (map (\<lambda>f. ?v f - mx) ?over)"
    and un: "un = [] @ map mf_condition_id ?under"
    and m2: "\<And>k. map_of a2 k = (if k \<in> mf_condition_id ` set ?over then Some mx else map_of ?a1 k)"
    by blast+
  have oc: "sum_list (map (\<lambda>f. ?v f - mx) ?over) = overflow_of mx ?xs"
    by (rule overflow_conv) (rule dg)
  have uc: "length ?under = n_under mx ?xs"
    by (rule under_conv) (rule dg)
  have ov: "ov = overflow_of mx ?xs" by (simp only: ov0 oc add_0)
  have len: "length un = n_under mx ?xs" by (simp only: un append_Nil length_map uc)
  have une: "(un \<noteq> []) = (n_under mx ?xs \<noteq> 0)" using len by (cases un) auto
  have dun: "distinct un" unfolding un append_Nil using df by (rule distinct_map_filter)
  have present: "\<And>f. f \<in> set (map fst zs) \<Longrightarrow> mf_condition_id f \<in> fst ` set ?a1" by force
  have k2: "map fst a2 = map fst ?a1" by (rule enforce_max_fst [OF ex present])
  have "set un \<subseteq> set (map fst ?a1)" unfolding un by force
  then have sub: "set un \<subseteq> fst ` set a2" unfolding k2 [symmetric] by simp
  have k3: "map fst ?a3 = map fst ?a1" using spread_overflow_fst [OF sub] k2 by simp
  have in_over: "\<And>f w. (f, w) \<in> set zs \<Longrightarrow>
                   (mf_condition_id f \<in> mf_condition_id ` set ?over) = (u w > mx)"
  proof -
    fix f w
    assume m: "(f, w) \<in> set zs"
    show "(mf_condition_id f \<in> mf_condition_id ` set ?over) = (u w > mx)"
    proof
      assume "mf_condition_id f \<in> mf_condition_id ` set ?over"
      then obtain f' w' where m': "(f', w') \<in> set zs" and o: "?v f' > mx"
        and e: "mf_condition_id f' = mf_condition_id f" by force
      have "w' = w" by (rule keyed_unique [OF d m m' e])
      then show "u w > mx" using o dg [OF m'] by simp
    next
      assume "u w > mx"
      then have "?v f > mx" using dg [OF m] by simp
      moreover have "f \<in> set (map fst zs)" using m by force
      ultimately have "f \<in> set ?over" by simp
      then show "mf_condition_id f \<in> mf_condition_id ` set ?over" by (rule imageI)
    qed
  qed
  have in_under: "\<And>f w. (f, w) \<in> set zs \<Longrightarrow> (mf_condition_id f \<in> set un) = (\<not> u w > mx)"
  proof -
    fix f w
    assume m: "(f, w) \<in> set zs"
    show "(mf_condition_id f \<in> set un) = (\<not> u w > mx)"
    proof
      assume "mf_condition_id f \<in> set un"
      then obtain f' w' where m': "(f', w') \<in> set zs" and o: "\<not> ?v f' > mx"
        and e: "mf_condition_id f' = mf_condition_id f" unfolding un by force
      have "w' = w" by (rule keyed_unique [OF d m m' e])
      then show "\<not> u w > mx" using o dg [OF m'] by simp
    next
      assume "\<not> u w > mx"
      then have "\<not> ?v f > mx" using dg [OF m] by simp
      moreover have "f \<in> set (map fst zs)" using m by force
      ultimately have "f \<in> set ?under" by simp
      then have "mf_condition_id f \<in> mf_condition_id ` set ?under" by (rule imageI)
      then show "mf_condition_id f \<in> set un" unfolding un by simp
    qed
  qed
  have g2: "\<And>f w. (f, w) \<in> set zs \<Longrightarrow>
              map_of a2 (mf_condition_id f) = Some (if u w > mx then mx else u w)"
  proof -
    fix f w
    assume m: "(f, w) \<in> set zs"
    have "map_of a2 (mf_condition_id f) = (if u w > mx then Some mx else Some (u w))"
      by (simp only: m2 in_over [OF m] keyed_get [OF d m])
    then show "map_of a2 (mf_condition_id f) = Some (if u w > mx then mx else u w)"
      by (simp split: if_splits)
  qed
  have dg2: "\<And>f w. (f, w) \<in> set zs \<Longrightarrow>
              dget a2 (mf_condition_id f) = (if u w > mx then mx else u w)"
    unfolding dget_def by (simp only: g2 option.case)
  show ?thesis
  proof (rule keyed_eqI [OF d])
    show "map fst ?a3 = map (\<lambda>(f, w). mf_condition_id f) zs"
      unfolding k3 by (rule keyed_fst)
    fix f w
    assume m: "(f, w) \<in> set zs"
    show "map_of ?a3 (mf_condition_id f) = Some (capped mx ?xs (u w))"
    proof (cases "ov > 0 \<and> un \<noteq> []")
      case True
      then have c: "overflow_of mx ?xs > 0 \<and> n_under mx ?xs \<noteq> 0" using ov une by simp
      have "map_of ?a3 (mf_condition_id f)
              = map_of (spread_overflow mx (ov / real (length un)) un a2) (mf_condition_id f)"
        using True by simp
      also have "\<dots> = (if \<not> u w > mx
                         then Some (min mx ((if u w > mx then mx else u w) + ov / real (length un)))
                         else Some (if u w > mx then mx else u w))"
        unfolding spread_overflow_map_of [OF dun] in_under [OF m] dg2 [OF m] g2 [OF m] ..
      also have "\<dots> = Some (capped mx ?xs (u w))"
        using c unfolding capped_def ov len by simp
      finally show ?thesis .
    next
      case False
      then have c: "\<not> (overflow_of mx ?xs > 0 \<and> n_under mx ?xs \<noteq> 0)" using ov une by simp
      have "map_of ?a3 (mf_condition_id f) = map_of a2 (mf_condition_id f)"
        using False by (simp only: if_False)
      also have "\<dots> = Some (if u w > mx then mx else u w)" by (rule g2 [OF m])
      also have "\<dots> = Some (capped mx ?xs (u w))"
        using c unfolding capped_def by (simp only: if_False)
      finally show ?thesis .
    qed
  qed
qed

lemma map_enumerate_snd:
  "map (\<lambda>(i, f, w). h f w) (enumerate n zs) = map (\<lambda>(f, w). h f w) zs"
  by (induction zs arbitrary: n) auto

lemma filter_enumerate_snd:
  "map (\<lambda>(i, f, w). h f w) (filter (\<lambda>(i, f, w). Q f w) (enumerate n zs))
     = map (\<lambda>(f, w). h f w) (filter (\<lambda>(f, w). Q f w) zs)"
  by (induction zs arbitrary: n) auto

lemma in_enumerate_snd: "(i, x) \<in> set (enumerate n xs) \<Longrightarrow> x \<in> set xs"
  by (auto simp: enumerate_eq_zip dest: set_zip_rightD)

lemma in_enumerate_ex: "x \<in> set xs \<Longrightarrow> \<exists>i. (i, x) \<in> set (enumerate n xs)"
proof -
  assume "x \<in> set xs"
  then have "x \<in> snd ` set (enumerate n xs)" by (simp flip: set_map)
  then show ?thesis by force
qed

lemma enumerate_unique:
  "(i, x) \<in> set (enumerate n xs) \<Longrightarrow> (i, y) \<in> set (enumerate n xs) \<Longrightarrow> x = y"
proof -
  assume a: "(i, x) \<in> set (enumerate n xs)" and b: "(i, y) \<in> set (enumerate n xs)"
  have d: "distinct (map fst (enumerate n xs))" by simp
  have "map_of (enumerate n xs) i = Some x" by (rule map_of_is_SomeI [OF d a])
  moreover have "map_of (enumerate n xs) i = Some y" by (rule map_of_is_SomeI [OF d b])
  ultimately show ?thesis by simp
qed

text \<open>The loop over the minimum on the first pass, in closed form.\<close>

lemma min_stage:
  assumes d: "distinct (map (\<lambda>(f, w). mf_condition_id f) zs)"
  shows "enforce_min mn (map (\<lambda>(f, w). (mf_condition_id f, a w)) zs) (enumerate 0 zs)
           ([], B, enumerate 0 zs)
         = (map (\<lambda>(f, w). (mf_condition_id f, mn)) (filter (\<lambda>(f, w). a w < mn) zs),
            B - mn * real (length (filter (\<lambda>(f, w). a w < mn) zs)),
            filter (\<lambda>(i, f, w). \<not> a w < mn) (enumerate 0 zs))"
proof -
  let ?a0 = "map (\<lambda>(f, w). (mf_condition_id f, a w)) zs"
  let ?items = "enumerate 0 zs"
  let ?P = "\<lambda>(i, f, w). dget ?a0 (mf_condition_id f) < mn"
  let ?Q = "\<lambda>(i :: nat, f :: MarketFeatures, w). a w < mn"
  have di: "distinct (map fst [] @ map (\<lambda>(i, f, w). mf_condition_id f) ?items)"
    using d by (simp add: map_enumerate_snd)
  have pq: "filter ?P ?items = filter ?Q ?items"
  proof (rule filter_cong [OF refl])
    fix z
    assume m: "z \<in> set ?items"
    obtain i f w where z: "z = (i, f, w)" by (cases z)
    from m have "(f, w) \<in> set zs" unfolding z by (rule in_enumerate_snd)
    then have "dget ?a0 (mf_condition_id f) = a w" by (rule keyed_dget [OF d])
    then show "?P z = ?Q z" by (simp add: z)
  qed
  have fx: "map (\<lambda>(i, f, w). (mf_condition_id f, mn)) (filter ?Q ?items)
              = map (\<lambda>(f, w). (mf_condition_id f, mn)) (filter (\<lambda>(f, w). a w < mn) zs)"
    by (rule filter_enumerate_snd)
  have "length (map (\<lambda>(i, f, w). (mf_condition_id f, mn)) (filter ?Q ?items))
          = length (map (\<lambda>(f, w). (mf_condition_id f, mn)) (filter (\<lambda>(f, w). a w < mn) zs))"
    by (simp only: fx)
  then have ln: "length (filter ?Q ?items) = length (filter (\<lambda>(f, w). a w < mn) zs)"
    by (simp only: length_map)
  have ri: "filter (\<lambda>(j, g, u). j \<notin> fst ` set (filter ?Q ?items)) ?items
              = filter (\<lambda>(i, f, w). \<not> a w < mn) ?items"
  proof (rule filter_cong [OF refl])
    fix z
    assume m: "z \<in> set ?items"
    obtain j g u where z: "z = (j, g, u)" by (cases z)
    have "(j \<in> fst ` set (filter ?Q ?items)) = (a u < mn)"
    proof
      assume "j \<in> fst ` set (filter ?Q ?items)"
      then obtain g' u' where m': "(j, g', u') \<in> set ?items" and q: "a u' < mn" by force
      from m have "(j, g, u) \<in> set ?items" by (simp add: z)
      from enumerate_unique [OF this m'] have "u' = u" by simp
      then show "a u < mn" using q by simp
    next
      assume "a u < mn"
      then have "(j, g, u) \<in> set (filter ?Q ?items)" using m by (simp add: z)
      then show "j \<in> fst ` set (filter ?Q ?items)" by force
    qed
    then show "(case z of (j, g, u) \<Rightarrow> j \<notin> fst ` set (filter ?Q ?items))
                = (case z of (i, f, w) \<Rightarrow> \<not> a w < mn)"
      by (simp add: z)
  qed
  show ?thesis
    unfolding enforce_min_closed [OF di] pq fx ln ri by simp
qed

text \<open>The re-allocation over the indices left, in closed form.\<close>

lemma realloc_stage:
  assumes d: "distinct (map (\<lambda>(f, w). mf_condition_id f) zs)"
  shows "(if filter (\<lambda>(i, f, w). \<not> P w) (enumerate 0 zs) \<noteq> []
          then reallocate r s2 (filter (\<lambda>(i, f, w). \<not> P w) (enumerate 0 zs))
                 (map (\<lambda>(f, w). (mf_condition_id f, a w)) zs)
          else map (\<lambda>(f, w). (mf_condition_id f, a w)) zs)
         = map (\<lambda>(f, w). (mf_condition_id f,
                  if P w then a w else r * (w / max (1 / 10 ^ 12) s2))) zs"
proof -
  let ?a0 = "map (\<lambda>(f, w). (mf_condition_id f, a w)) zs"
  let ?ri = "filter (\<lambda>(i, f, w). \<not> P w) (enumerate 0 zs)"
  let ?a1 = "if ?ri \<noteq> [] then reallocate r s2 ?ri ?a0 else ?a0"
  have ri_in: "\<And>i f w. (i, f, w) \<in> set ?ri \<Longrightarrow> (f, w) \<in> set zs \<and> \<not> P w"
    by (auto dest: in_enumerate_snd)
  have dri: "distinct (map (\<lambda>(i, f, w). mf_condition_id f) ?ri)"
  proof -
    have "map (\<lambda>(i, f, w). mf_condition_id f) ?ri
            = map (\<lambda>(f, w). mf_condition_id f) (filter (\<lambda>(f, w). \<not> P w) zs)"
      by (rule filter_enumerate_snd)
    then show ?thesis using d by (simp only: distinct_map_filter)
  qed
  show ?thesis
  proof (rule keyed_eqI [OF d])
    have pres: "\<And>i f w. (i, f, w) \<in> set ?ri \<Longrightarrow> mf_condition_id f \<in> fst ` set ?a0"
    proof -
      fix i f w
      assume "(i, f, w) \<in> set ?ri"
      then have "(f, w) \<in> set zs" using ri_in by blast
      then show "mf_condition_id f \<in> fst ` set ?a0" by force
    qed
    have "map fst (reallocate r s2 ?ri ?a0) = map fst ?a0" by (rule reallocate_fst [OF pres])
    then have "map fst ?a1 = map fst ?a0" by simp
    then show "map fst ?a1 = map (\<lambda>(f, w). mf_condition_id f) zs" by (simp only: keyed_fst)
    fix f w
    assume m: "(f, w) \<in> set zs"
    show "map_of ?a1 (mf_condition_id f)
            = Some (if P w then a w else r * (w / max (1 / 10 ^ 12) s2))"
    proof (cases "P w")
      case True
      have n: "mf_condition_id f \<notin> (\<lambda>(i, f, w). mf_condition_id f) ` set ?ri"
      proof
        assume "mf_condition_id f \<in> (\<lambda>(i, f, w). mf_condition_id f) ` set ?ri"
        then obtain i' f' w' where m': "(i', f', w') \<in> set ?ri"
          and e: "mf_condition_id f' = mf_condition_id f" by force
        from ri_in [OF m'] have z: "(f', w') \<in> set zs" and np: "\<not> P w'" by blast+
        from keyed_unique [OF d m z e] np True show False by simp
      qed
      have "map_of ?a1 (mf_condition_id f) = map_of ?a0 (mf_condition_id f)"
        using reallocate_other [OF n] by simp
      also have "\<dots> = Some (a w)" by (rule keyed_get [OF d m])
      finally show ?thesis using True by simp
    next
      case False
      from in_enumerate_ex [OF m] obtain i where "(i, f, w) \<in> set (enumerate 0 zs)" by blast
      then have mi: "(i, f, w) \<in> set ?ri" using False by simp
      have ne: "?ri \<noteq> []"
      proof
        assume "?ri = []"
        then have "set ?ri = {}" by (simp only: set_empty)
        with mi show False by (simp only: empty_iff)
      qed
      have "map_of ?a1 (mf_condition_id f) = map_of (reallocate r s2 ?ri ?a0) (mf_condition_id f)"
        using ne by (simp only: if_True not_False_eq_True simp_thms)
      also have "\<dots> = Some (r * (w / max (1 / 10 ^ 12) s2))"
        by (rule reallocate_key [OF dri mi])
      finally show ?thesis using False by (simp only: if_False)
    qed
  qed
qed

lemma realloc_sum:
  "sum_list (map (\<lambda>(i, f, w). w) (filter (\<lambda>(i, f, w). \<not> P w) (enumerate n zs)))
     = sum_list (filter (\<lambda>w. \<not> P w) (map snd zs))"
  by (induction zs arbitrary: n) auto

lemma length_filter_snd:
  "length (filter (\<lambda>(f, w). P w) zs) = length (filter P (map snd zs))"
  by (induction zs) auto

text \<open>What \<^verbatim>\<open>allocate\<close> returns for markets of distinct identifiers, in closed form.\<close>

lemma allocate_caps_closed:
  assumes d: "distinct (map (\<lambda>(f, w). mf_condition_id f) zs)"
      and s: "0 < sum_list (map snd zs)"
  shows "allocate_caps self (map fst zs) (map snd zs)
         = (if budget_left (ca_total_budget_usd self) (ca_min_per_market self) (map snd zs) \<le> 0
            then map (\<lambda>(f, w). (mf_condition_id f,
                        min (ca_max_per_market self) (ca_min_per_market self)))
                   (filter (\<lambda>(f, w). pinned (ca_total_budget_usd self) (ca_min_per_market self)
                                        (map snd zs) w) zs)
            else map (\<lambda>(f, w). (mf_condition_id f,
                        if pinned (ca_total_budget_usd self) (ca_min_per_market self) (map snd zs) w
                        then ca_min_per_market self
                        else capped (ca_max_per_market self)
                               (map (before_max (ca_total_budget_usd self)
                                       (ca_min_per_market self) (map snd zs)) (map snd zs))
                               (reshare (ca_total_budget_usd self) (ca_min_per_market self)
                                  (map snd zs) w))) zs)"
proof -
  let ?B = "ca_total_budget_usd self"
  let ?mn = "ca_min_per_market self"
  let ?mx = "ca_max_per_market self"
  let ?ws = "map snd zs"
  let ?s = "sum_list ?ws"
  let ?pin = "pinned ?B ?mn ?ws"
  let ?bm = "before_max ?B ?mn ?ws"
  let ?a0 = "map (\<lambda>(f, w). (mf_condition_id f, share ?B ?ws w)) zs"
  let ?items = "enumerate 0 zs"
  let ?fixed = "map (\<lambda>(f, w). (mf_condition_id f, ?mn)) (filter (\<lambda>(f, w). ?pin w) zs)"
  let ?rem = "budget_left ?B ?mn ?ws"
  let ?ri = "filter (\<lambda>(i, f, w). \<not> ?pin w) ?items"
  let ?s2 = "sum_list (filter (\<lambda>w. \<not> ?pin w) ?ws)"
  let ?a1 = "map (\<lambda>(f, w). (mf_condition_id f, ?bm w)) zs"
  have sp: "\<not> ?s \<le> 0" using s by simp
  have z: "zip (map fst zs) ?ws = zs" by (rule zip_map_fst_snd)
  have fp: "first_pass ?B ?s zs [] = ?a0"
    using first_pass_distinct [of "[]" zs ?B ?s] d by (simp add: share_def)
  have em: "enforce_min ?mn ?a0 ?items ([], ?B, ?items) = (?fixed, ?rem, ?ri)"
    unfolding min_stage [OF d] pinned_def budget_left_def length_filter_snd [symmetric] ..
  have s2: "sum_list (map (\<lambda>(i, f, w). w) ?ri) = ?s2" by (rule realloc_sum)
  have re: "(if ?ri \<noteq> [] then reallocate ?rem ?s2 ?ri ?a0 else ?a0) = ?a1"
    unfolding realloc_stage [OF d] before_max_def reshare_def ..
  show ?thesis
  proof (cases "?rem \<le> 0")
    case True
    have "allocate_caps self (map fst zs) ?ws = map (\<lambda>(cid, v). (cid, min ?mx v)) ?fixed"
      unfolding allocate_caps_def Let_def
      using sp True by (simp only: if_False z fp em prod.case if_True)
    also have "\<dots> = map (\<lambda>(f, w). (mf_condition_id f, min ?mx ?mn)) (filter (\<lambda>(f, w). ?pin w) zs)"
      by (simp add: case_prod_beta comp_def)
    finally show ?thesis using True by (simp only: if_True)
  next
    case False
    obtain a2 ov un where ex: "enforce_max ?mx (map fst zs) (?a1, 0, []) = (a2, ov, un)"
      by (cases "enforce_max ?mx (map fst zs) (?a1, 0, [])")
    let ?a3 = "map (\<lambda>(f, w). (mf_condition_id f, capped ?mx (map ?bm ?ws) (?bm w))) zs"
    have cs: "(if ov > 0 \<and> un \<noteq> [] then spread_overflow ?mx (ov / real (length un)) un a2 else a2)
                = ?a3"
      by (rule cap_stage [OF d ex])
    have "allocate_caps self (map fst zs) ?ws = dict_update ?a3 ?fixed"
      unfolding allocate_caps_def Let_def
      using sp False by (simp only: if_False z fp em prod.case s2 re ex cs)
    also have "\<dots> = map (\<lambda>(f, w). (mf_condition_id f,
                          if ?pin w then ?mn else capped ?mx (map ?bm ?ws) (?bm w))) zs"
      by (rule merge_pins [OF d])
    also have "\<dots> = map (\<lambda>(f, w). (mf_condition_id f,
                          if ?pin w then ?mn
                          else capped ?mx (map ?bm ?ws) (reshare ?B ?mn ?ws w))) zs"
      by (rule map_cong [OF refl]) (auto simp: before_max_def)
    finally show ?thesis using False by (simp only: if_False)
  qed
qed

text \<open>Arithmetic of the clipping and of the spread.\<close>

lemma overflow_Cons:
  "overflow_of mx (x # xs) = (if x > mx then x - mx else 0) + overflow_of mx xs"
  by (simp add: overflow_of_def)

lemma n_under_Cons:
  "n_under mx (x # xs) = (if x > mx then 0 else 1) + n_under mx xs"
  by (simp add: n_under_def)

lemma overflow_Nil: "overflow_of mx [] = 0"
  by (simp add: overflow_of_def)

lemma n_under_Nil: "n_under mx [] = 0"
  by (simp add: n_under_def)

lemma overflow_nonneg: "0 \<le> overflow_of mx xs"
  by (induction xs) (simp_all add: overflow_Nil overflow_Cons)

lemma overflow_zero_iff: "(overflow_of mx xs = 0) = (\<forall>x\<in>set xs. \<not> x > mx)"
proof (induction xs)
  case Nil
  then show ?case by (simp add: overflow_Nil)
next
  case (Cons x xs)
  have n: "0 \<le> overflow_of mx xs" by (rule overflow_nonneg)
  show ?case
  proof (cases "x > mx")
    case True
    then have "0 < overflow_of mx (x # xs)" using n by (simp add: overflow_Cons)
    then show ?thesis using True by auto
  next
    case False
    then show ?thesis using Cons.IH by (simp add: overflow_Cons)
  qed
qed

lemma overflow_split:
  "overflow_of mx (map g ws)
     = overflow_of mx (map g (filter P ws)) + overflow_of mx (map g (filter (\<lambda>w. \<not> P w) ws))"
  by (induction ws) (simp_all add: overflow_Nil overflow_Cons)

lemma n_under_split:
  "n_under mx (map g ws)
     = n_under mx (map g (filter P ws)) + n_under mx (map g (filter (\<lambda>w. \<not> P w) ws))"
  by (induction ws) (simp_all add: n_under_Nil n_under_Cons)

lemma capped_le: "capped mx xs x \<le> mx"
  by (simp add: capped_def)

lemma capped_ge: "min mx x \<le> capped mx xs x"
proof -
  have "0 \<le> overflow_of mx xs / real (n_under mx xs)"
    using overflow_nonneg [of mx xs] by simp
  then show ?thesis by (simp add: capped_def min_def)
qed

lemma capped_id: "overflow_of mx xs = 0 \<Longrightarrow> \<not> x > mx \<Longrightarrow> capped mx xs x = x"
  by (simp add: capped_def)

lemma sum_spread:
  "sum_list (map (\<lambda>y. if y > mx then mx else y + c) ys)
     = sum_list ys - overflow_of mx ys + real (n_under mx ys) * c"
  by (induction ys) (simp_all add: overflow_Nil overflow_Cons n_under_Nil n_under_Cons algebra_simps)

lemma sum_list_eq_iff:
  fixes f g :: "real \<Rightarrow> real"
  shows "(\<And>y. y \<in> set ys \<Longrightarrow> f y \<le> g y) \<Longrightarrow>
         (sum_list (map f ys) = sum_list (map g ys)) = (\<forall>y\<in>set ys. f y = g y)"
proof (induction ys)
  case Nil
  then show ?case by simp
next
  case (Cons y ys)
  have a: "f y \<le> g y" using Cons.prems [of y] by simp
  have b: "sum_list (map f ys) \<le> sum_list (map g ys)"
    by (rule sum_list_mono) (use Cons.prems in simp)
  have ih: "(sum_list (map f ys) = sum_list (map g ys)) = (\<forall>y\<in>set ys. f y = g y)"
    by (rule Cons.IH) (use Cons.prems in simp)
  have "(f y + sum_list (map f ys) = g y + sum_list (map g ys))
          = (f y = g y \<and> sum_list (map f ys) = sum_list (map g ys))"
    using a b by linarith
  then show ?case using ih by simp
qed

lemma capped_sum_le:
  assumes o: "overflow_of mx ys = overflow_of mx xs"
      and n: "n_under mx ys \<le> n_under mx xs"
  shows "sum_list (map (capped mx xs) ys) \<le> sum_list ys"
proof (cases "overflow_of mx xs > 0 \<and> n_under mx xs \<noteq> 0")
  case True
  let ?c = "overflow_of mx xs / real (n_under mx xs)"
  have c0: "0 \<le> ?c" using True by simp
  have "sum_list (map (capped mx xs) ys)
          \<le> sum_list (map (\<lambda>y. if y > mx then mx else y + ?c) ys)"
    by (rule sum_list_mono) (use True in \<open>simp add: capped_def\<close>)
  also have "\<dots> = sum_list ys - overflow_of mx ys + real (n_under mx ys) * ?c"
    by (rule sum_spread)
  also have "\<dots> \<le> sum_list ys - overflow_of mx ys + real (n_under mx xs) * ?c"
  proof -
    have "real (n_under mx ys) \<le> real (n_under mx xs)" using n by simp
    then have "real (n_under mx ys) * ?c \<le> real (n_under mx xs) * ?c"
      using c0 by (rule mult_right_mono)
    then show ?thesis by linarith
  qed
  also have "\<dots> = sum_list ys" using True o by simp
  finally show ?thesis .
next
  case False
  have "sum_list (map (capped mx xs) ys) = sum_list (map (\<lambda>y. if y > mx then mx else y + 0) ys)"
    by (rule arg_cong [where f = sum_list], rule map_cong [OF refl])
       (use False in \<open>simp add: capped_def\<close>)
  also have "\<dots> = sum_list ys - overflow_of mx ys + real (n_under mx ys) * 0"
    by (rule sum_spread)
  also have "\<dots> \<le> sum_list ys" using overflow_nonneg [of mx ys] by simp
  finally show ?thesis .
qed

lemma capped_sum_iff:
  "(sum_list (map (capped mx xs) xs) = sum_list xs) = absorbed mx xs"
proof (cases "overflow_of mx xs > 0 \<and> n_under mx xs \<noteq> 0")
  case True
  let ?c = "overflow_of mx xs / real (n_under mx xs)"
  let ?f = "\<lambda>y. if y > mx then mx else min mx (y + ?c)"
  let ?g = "\<lambda>y. if y > mx then mx else y + ?c"
  have cf: "map (capped mx xs) xs = map ?f xs"
    by (rule map_cong [OF refl]) (use True in \<open>simp add: capped_def\<close>)
  have sg: "sum_list (map ?g xs) = sum_list xs"
    unfolding sum_spread using True by simp
  have "(sum_list (map ?f xs) = sum_list (map ?g xs)) = (\<forall>y\<in>set xs. ?f y = ?g y)"
    by (rule sum_list_eq_iff) simp
  also have "\<dots> = list_all (\<lambda>x. x > mx \<or> x + ?c \<le> mx) xs"
    unfolding list_all_iff by (rule ball_cong [OF refl]) (auto simp: min_def)
  also have "\<dots> = absorbed mx xs" using True by (simp add: absorbed_def)
  finally show ?thesis unfolding cf sg .
next
  case False
  have cf: "sum_list (map (capped mx xs) xs) = sum_list (map (\<lambda>y. if y > mx then mx else y + 0) xs)"
    by (rule arg_cong [where f = sum_list], rule map_cong [OF refl])
       (use False in \<open>simp add: capped_def\<close>)
  have s: "sum_list (map (capped mx xs) xs) = sum_list xs - overflow_of mx xs"
    unfolding cf sum_spread by simp
  show ?thesis
  proof (cases "overflow_of mx xs = 0")
    case True
    then show ?thesis using s by (simp add: absorbed_def)
  next
    case nz: False
    then have "n_under mx xs = 0" using False overflow_nonneg [of mx xs] by force
    then show ?thesis using s nz by (simp add: absorbed_def)
  qed
qed

lemma sum_if_split:
  fixes h :: "real \<Rightarrow> real"
  shows "sum_list (map (\<lambda>w. if P w then c else h w) ws)
           = c * real (length (filter P ws)) + sum_list (map h (filter (\<lambda>w. \<not> P w) ws))"
  by (induction ws) (simp_all add: algebra_simps)

lemma keyed_sum:
  "dict_sum (map (\<lambda>(f, w). (mf_condition_id f, h w)) zs) = sum_list (map h (map snd zs))"
  unfolding dict_sum_def by (induction zs) auto

lemma sum_list_scaled:
  fixes ws :: "real list"
  shows "sum_list (map (\<lambda>w. c * (w / s)) ws) = c * (sum_list ws / s)"
  by (induction ws) (simp_all add: add_divide_distrib distrib_left)

text \<open>No value above the maximum, whatever the identifiers.\<close>

lemma first_pass_keys:
  "map_of (first_pass B s zs alloc) k = Some v \<Longrightarrow>
   k \<in> dom (map_of alloc) \<union> mf_condition_id ` fst ` set zs"
proof (induction zs arbitrary: alloc)
  case Nil
  then show ?case by auto
next
  case (Cons z zs)
  obtain f w where z: "z = (f, w)" by (cases z)
  from Cons.prems have "k \<in> dom (map_of (AList.update (mf_condition_id f) (B * (w / s)) alloc))
                          \<union> mf_condition_id ` fst ` set zs"
    unfolding z by (simp only: first_pass.simps) (rule Cons.IH)
  then show ?case by (auto simp: z update_conv' split: if_splits)
qed

lemma reallocate_keys:
  "map_of (reallocate r s2 ri alloc) k = Some v \<Longrightarrow>
   k \<in> dom (map_of alloc) \<union> (\<lambda>(i, f, w). mf_condition_id f) ` set ri"
proof (induction ri arbitrary: alloc)
  case Nil
  then show ?case by auto
next
  case (Cons z ri)
  obtain i f w where z: "z = (i, f, w)" by (cases z)
  from Cons.prems have
    "k \<in> dom (map_of (AList.update (mf_condition_id f) (r * (w / max (1 / 10 ^ 12) s2)) alloc))
          \<union> (\<lambda>(i, f, w). mf_condition_id f) ` set ri"
    unfolding z by (simp only: reallocate.simps) (rule Cons.IH)
  then show ?case by (auto simp: z update_conv' split: if_splits)
qed

lemma enforce_min_indices:
  "enforce_min mn alloc items (fixed, rem, ri) = (fixed', rem', ri') \<Longrightarrow> set ri' \<subseteq> set ri"
proof (induction items arbitrary: fixed rem ri)
  case Nil
  then show ?case by simp
next
  case (Cons z items)
  obtain i f w where z: "z = (i, f, w)" by (cases z)
  show ?case
  proof (cases "dget alloc (mf_condition_id f) < mn")
    case True
    with Cons.prems have
      "enforce_min mn alloc items
         (AList.update (mf_condition_id f) mn fixed, rem - mn,
          filter (\<lambda>(j, g, u). j \<noteq> i) ri) = (fixed', rem', ri')"
      by (simp add: z)
    from Cons.IH [OF this] show ?thesis by auto
  next
    case False
    with Cons.prems have "enforce_min mn alloc items (fixed, rem, ri) = (fixed', rem', ri')"
      by (simp add: z)
    from Cons.IH [OF this] show ?thesis .
  qed
qed

lemma enforce_min_fixed:
  "enforce_min mn alloc items (fixed, rem, ri) = (fixed', rem', ri') \<Longrightarrow>
   (\<And>k v. map_of fixed k = Some v \<Longrightarrow> v = mn) \<Longrightarrow>
   map_of fixed' k = Some v \<Longrightarrow> v = mn"
proof (induction items arbitrary: fixed rem ri)
  case Nil
  then show ?case by simp
next
  case (Cons z items)
  obtain i f w where z: "z = (i, f, w)" by (cases z)
  show ?case
  proof (cases "dget alloc (mf_condition_id f) < mn")
    case True
    with Cons.prems(1) have e:
      "enforce_min mn alloc items
         (AList.update (mf_condition_id f) mn fixed, rem - mn,
          filter (\<lambda>(j, g, u). j \<noteq> i) ri) = (fixed', rem', ri')"
      by (simp add: z)
    have "\<And>k v. map_of (AList.update (mf_condition_id f) mn fixed) k = Some v \<Longrightarrow> v = mn"
      using Cons.prems(2) by (auto simp: update_conv' split: if_splits)
    from Cons.IH [OF e this Cons.prems(3)] show ?thesis .
  next
    case False
    with Cons.prems(1) have "enforce_min mn alloc items (fixed, rem, ri) = (fixed', rem', ri')"
      by (simp add: z)
    from Cons.IH [OF this Cons.prems(2) Cons.prems(3)] show ?thesis .
  qed
qed

lemma enforce_max_le:
  "enforce_max mx fs (alloc, ov, un) = (alloc', ov', un') \<Longrightarrow>
   (\<And>k v. map_of alloc k = Some v \<Longrightarrow> v \<le> mx \<or> k \<in> mf_condition_id ` set fs) \<Longrightarrow>
   map_of alloc' k = Some v \<Longrightarrow> v \<le> mx"
proof (induction fs arbitrary: alloc ov un)
  case Nil
  then show ?case by auto
next
  case (Cons f fs)
  let ?c = "mf_condition_id f"
  show ?case
  proof (cases "dget alloc ?c > mx")
    case True
    with Cons.prems(1) have e:
      "enforce_max mx fs (AList.update ?c mx alloc, ov + (dget alloc ?c - mx), un)
         = (alloc', ov', un')"
      by (simp add: Let_def)
    have "\<And>k v. map_of (AList.update ?c mx alloc) k = Some v \<Longrightarrow>
            v \<le> mx \<or> k \<in> mf_condition_id ` set fs"
      using Cons.prems(2) by (auto simp: update_conv' split: if_splits)
    from Cons.IH [OF e this Cons.prems(3)] show ?thesis .
  next
    case False
    with Cons.prems(1) have e:
      "enforce_max mx fs (alloc, ov, un @ [?c]) = (alloc', ov', un')"
      by (simp add: Let_def)
    have "\<And>k v. map_of alloc k = Some v \<Longrightarrow> v \<le> mx \<or> k \<in> mf_condition_id ` set fs"
    proof -
      fix k v
      assume kv: "map_of alloc k = Some v"
      show "v \<le> mx \<or> k \<in> mf_condition_id ` set fs"
      proof (cases "k = ?c")
        case True
        then have "dget alloc ?c = v" using kv by (simp add: dget_def)
        then show ?thesis using False by simp
      next
        case False
        then show ?thesis using Cons.prems(2) [OF kv] by auto
      qed
    qed
    from Cons.IH [OF e this Cons.prems(3)] show ?thesis .
  qed
qed

lemma spread_overflow_le:
  "(\<And>k v. map_of alloc k = Some v \<Longrightarrow> v \<le> mx) \<Longrightarrow>
   map_of (spread_overflow mx add un alloc) k = Some v \<Longrightarrow> v \<le> mx"
proof (induction un arbitrary: alloc)
  case Nil
  then show ?case by simp
next
  case (Cons c un)
  have "\<And>k v. map_of (AList.update c (min mx (dget alloc c + add)) alloc) k = Some v \<Longrightarrow> v \<le> mx"
    using Cons.prems(1) by (auto simp: update_conv' split: if_splits)
  from Cons.IH [OF this] Cons.prems(2) show ?case by simp
qed

lemma dict_update_le:
  "(\<And>k v. map_of alloc k = Some v \<Longrightarrow> v \<le> mx) \<Longrightarrow>
   (\<And>k v. map_of fixed k = Some v \<Longrightarrow> v \<le> mx) \<Longrightarrow>
   distinct (map fst fixed) \<Longrightarrow>
   map_of (dict_update alloc fixed) k = Some v \<Longrightarrow> v \<le> mx"
proof (induction fixed arbitrary: alloc)
  case Nil
  then show ?case by simp
next
  case (Cons z fixed)
  obtain c x where z: "z = (c, x)" by (cases z)
  have x: "x \<le> mx" using Cons.prems(2) [of c x] by (simp add: z)
  have a: "\<And>k v. map_of (AList.update c x alloc) k = Some v \<Longrightarrow> v \<le> mx"
    using Cons.prems(1) x by (auto simp: update_conv' split: if_splits)
  have b: "\<And>k v. map_of fixed k = Some v \<Longrightarrow> v \<le> mx"
  proof -
    fix k v
    assume kv: "map_of fixed k = Some v"
    then have "(k, v) \<in> set fixed" by (rule map_of_SomeD)
    then have "k \<in> fst ` set fixed" by force
    then have "k \<noteq> c" using Cons.prems(3) by (auto simp: z)
    then have "map_of (z # fixed) k = Some v" using kv by (simp add: z)
    then show "v \<le> mx" by (rule Cons.prems(2))
  qed
  have d: "distinct (map fst fixed)" using Cons.prems(3) by simp
  from Cons.IH [OF a b d] Cons.prems(4) show ?case by (simp add: z)
qed

lemma enforce_min_distinct:
  "enforce_min mn alloc items (fixed, rem, ri) = (fixed', rem', ri') \<Longrightarrow>
   distinct (map fst fixed) \<Longrightarrow> distinct (map fst fixed')"
proof (induction items arbitrary: fixed rem ri)
  case Nil
  then show ?case by simp
next
  case (Cons z items)
  obtain i f w where z: "z = (i, f, w)" by (cases z)
  show ?case
  proof (cases "dget alloc (mf_condition_id f) < mn")
    case True
    with Cons.prems(1) have e:
      "enforce_min mn alloc items
         (AList.update (mf_condition_id f) mn fixed, rem - mn,
          filter (\<lambda>(j, g, u). j \<noteq> i) ri) = (fixed', rem', ri')"
      by (simp add: z)
    from Cons.IH [OF e] Cons.prems(2) show ?thesis by (simp add: distinct_update)
  next
    case False
    with Cons.prems(1) have "enforce_min mn alloc items (fixed, rem, ri) = (fixed', rem', ri')"
      by (simp add: z)
    from Cons.IH [OF this Cons.prems(2)] show ?thesis .
  qed
qed

lemma allocate_caps_le_max:
  assumes mm: "ca_min_per_market self \<le> ca_max_per_market self"
      and kv: "map_of (allocate_caps self feats ws) k = Some v"
  shows "v \<le> ca_max_per_market self"
proof -
  let ?B = "ca_total_budget_usd self"
  let ?mn = "ca_min_per_market self"
  let ?mx = "ca_max_per_market self"
  let ?w0 = "ws"
  let ?wr = "if sum_list ?w0 \<le> 0 then replicate (length feats) 1 else ?w0"
  let ?s = "if sum_list ?w0 \<le> 0 then real (length feats) else sum_list ?w0"
  let ?a0 = "first_pass ?B ?s (zip feats ?wr) []"
  let ?items = "enumerate 0 (zip feats ?wr)"
  obtain fixed rem ri where em: "enforce_min ?mn ?a0 ?items ([], ?B, ?items) = (fixed, rem, ri)"
    by (cases "enforce_min ?mn ?a0 ?items ([], ?B, ?items)")
  have fixed_mn: "\<And>k v. map_of fixed k = Some v \<Longrightarrow> v = ?mn"
    by (rule enforce_min_fixed [OF em]) simp_all
  have fixed_d: "distinct (map fst fixed)"
    by (rule enforce_min_distinct [OF em]) simp
  show ?thesis
  proof (cases "rem \<le> 0")
    case True
    have "allocate_caps self feats ws = map (\<lambda>(cid, v). (cid, min ?mx v)) fixed"
      unfolding allocate_caps_def Let_def using True by (simp only: em prod.case if_True)
    with kv have "map_of (map (\<lambda>(cid, v). (cid, min ?mx v)) fixed) k = Some v"
      by simp
    then have "(k, v) \<in> set (map (\<lambda>(cid, v). (cid, min ?mx v)) fixed)"
      by (rule map_of_SomeD)
    then show ?thesis by auto
  next
    case False
    let ?a1 = "if ri \<noteq> []
               then reallocate rem (sum_list (map (\<lambda>(i, f, w). w) ri)) ri ?a0 else ?a0"
    obtain a2 ov un where ex: "enforce_max ?mx feats (?a1, 0, []) = (a2, ov, un)"
      by (cases "enforce_max ?mx feats (?a1, 0, [])")
    let ?a3 = "if ov > 0 \<and> un \<noteq> []
               then spread_overflow ?mx (ov / real (length un)) un a2 else a2"
    have res: "allocate_caps self feats ws = dict_update ?a3 fixed"
      unfolding allocate_caps_def Let_def using False
      by (simp only: if_False em prod.case ex)
    have k0: "\<And>k v. map_of ?a0 k = Some v \<Longrightarrow> k \<in> mf_condition_id ` set feats"
    proof -
      fix k v
      assume "map_of ?a0 k = Some v"
      from first_pass_keys [OF this] have "k \<in> mf_condition_id ` fst ` set (zip feats ?wr)"
        by simp
      then show "k \<in> mf_condition_id ` set feats"
        by (auto dest: set_zip_leftD)
    qed
    have ri_sub: "set ri \<subseteq> set ?items" by (rule enforce_min_indices [OF em])
    have k1: "\<And>k v. map_of ?a1 k = Some v \<Longrightarrow> k \<in> mf_condition_id ` set feats"
    proof -
      fix k v
      assume a: "map_of ?a1 k = Some v"
      show "k \<in> mf_condition_id ` set feats"
      proof (cases "ri \<noteq> []")
        case True
        with a have "map_of (reallocate rem (sum_list (map (\<lambda>(i, f, w). w) ri)) ri ?a0) k
                       = Some v" by simp
        from reallocate_keys [OF this]
        have "k \<in> dom (map_of ?a0) \<or> k \<in> (\<lambda>(i, f, w). mf_condition_id f) ` set ri"
          by blast
        then show ?thesis
        proof
          assume "k \<in> dom (map_of ?a0)"
          then show ?thesis using k0 by blast
        next
          assume "k \<in> (\<lambda>(i, f, w). mf_condition_id f) ` set ri"
          then obtain i f w where m: "(i, f, w) \<in> set ri" and kf: "k = mf_condition_id f"
            by auto
          from m ri_sub have "(i, f, w) \<in> set ?items" by blast
          then have "(f, w) \<in> set (zip feats ?wr)" by (rule in_enumerate_snd)
          then have "f \<in> set feats" by (rule set_zip_leftD)
          then show ?thesis using kf by blast
        qed
      next
        case False
        with a k0 show ?thesis by simp
      qed
    qed
    have l2: "\<And>k v. map_of a2 k = Some v \<Longrightarrow> v \<le> ?mx"
      by (rule enforce_max_le [OF ex]) (use k1 in blast)
    have l3: "\<And>k v. map_of ?a3 k = Some v \<Longrightarrow> v \<le> ?mx"
    proof -
      fix k v
      assume a: "map_of ?a3 k = Some v"
      show "v \<le> ?mx"
      proof (cases "ov > 0 \<and> un \<noteq> []")
        case True
        with a have "map_of (spread_overflow ?mx (ov / real (length un)) un a2) k = Some v"
          by simp
        then show ?thesis by (rule spread_overflow_le [rotated]) (rule l2)
      next
        case False
        with a have "map_of a2 k = Some v" by (simp only: if_False)
        then show ?thesis by (rule l2)
      qed
    qed
    have lf: "\<And>k v. map_of fixed k = Some v \<Longrightarrow> v \<le> ?mx"
      using fixed_mn mm by auto
    from kv have "map_of (dict_update ?a3 fixed) k = Some v" unfolding res .
    then show ?thesis by (rule dict_update_le [OF l3 lf fixed_d, rotated -1])
  qed
qed

text \<open>The budget is not exceeded once the pins leave some of it.\<close>

lemma pinned_not_over:
  "mn \<le> mx \<Longrightarrow>
   overflow_of mx (map (before_max B mn ws) (filter (pinned B mn ws) ws)) = 0"
  unfolding overflow_zero_iff by (auto simp: before_max_def pinned_def)

lemma free_before_max:
  "map (before_max B mn ws) (filter (\<lambda>w. \<not> pinned B mn ws w) ws)
     = map (reshare B mn ws) (filter (\<lambda>w. \<not> pinned B mn ws w) ws)"
  by (rule map_cong [OF refl]) (simp add: before_max_def)

lemma sum_reshare:
  "sum_list (map (reshare B mn ws) (filter (\<lambda>w. \<not> pinned B mn ws w) ws))
     = budget_left B mn ws
         * (sum_list (filter (\<lambda>w. \<not> pinned B mn ws w) ws)
              / max (1 / 10 ^ 12) (sum_list (filter (\<lambda>w. \<not> pinned B mn ws w) ws)))"
proof -
  have "map (reshare B mn ws) (filter (\<lambda>w. \<not> pinned B mn ws w) ws)
          = map (\<lambda>w. budget_left B mn ws
                        * (w / max (1 / 10 ^ 12) (sum_list (filter (\<lambda>w. \<not> pinned B mn ws w) ws))))
              (filter (\<lambda>w. \<not> pinned B mn ws w) ws)"
    by (rule map_cong [OF refl]) (simp only: reshare_def)
  then show ?thesis by (simp only: sum_list_scaled)
qed

lemma ratio_le_one:
  fixes t :: real
  assumes "0 \<le> t"
  shows "0 \<le> t / max (1 / 10 ^ 12) t \<and> t / max (1 / 10 ^ 12) t \<le> 1"
proof -
  have m: "0 < max (1 / 10 ^ 12) t" by (rule less_le_trans [OF _ max.cobounded1]) simp
  have "t \<le> max (1 / 10 ^ 12) t" by (rule max.cobounded2)
  then have "t / max (1 / 10 ^ 12) t \<le> 1" using m by (simp add: divide_le_eq)
  moreover have "0 \<le> t / max (1 / 10 ^ 12) t" using assms m by (simp add: divide_nonneg_pos)
  ultimately show ?thesis by simp
qed

lemma ratio_one:
  fixes t :: real
  assumes "1 / 10 ^ 12 \<le> t"
  shows "t / max (1 / 10 ^ 12) t = 1"
proof -
  have m: "max (1 / 10 ^ 12) t = t" using assms by (rule max_absorb2)
  have "0 < t" by (rule less_le_trans [OF _ assms]) simp
  then show ?thesis unfolding m by simp
qed

lemma pinned_sum_le:
  assumes mm: "mn \<le> mx"
      and pos: "\<forall>w\<in>set ws. 0 < w"
      and rem: "0 < budget_left B mn ws"
  shows "sum_list (map (\<lambda>w. if pinned B mn ws w then mn
                             else capped mx (map (before_max B mn ws) ws) (reshare B mn ws w)) ws)
           \<le> B"
proof -
  let ?P = "pinned B mn ws"
  let ?fr = "filter (\<lambda>w. \<not> ?P w) ws"
  let ?xs = "map (before_max B mn ws) ws"
  let ?ys = "map (reshare B mn ws) ?fr"
  have o: "overflow_of mx ?ys = overflow_of mx ?xs"
    using overflow_split [of mx "before_max B mn ws" ws ?P]
    by (simp only: pinned_not_over [OF mm] free_before_max add_0)
  have n: "n_under mx ?ys \<le> n_under mx ?xs"
    using n_under_split [of mx "before_max B mn ws" ws ?P]
    by (simp only: free_before_max)
  have t0: "0 \<le> sum_list ?fr"
    by (rule sum_list_nonneg) (use pos in \<open>auto intro: less_imp_le\<close>)
  have "sum_list (map (\<lambda>w. if ?P w then mn else capped mx ?xs (reshare B mn ws w)) ws)
          = mn * real (length (filter ?P ws))
            + sum_list (map (\<lambda>w. capped mx ?xs (reshare B mn ws w)) ?fr)"
    by (rule sum_if_split)
  also have "sum_list (map (\<lambda>w. capped mx ?xs (reshare B mn ws w)) ?fr)
               = sum_list (map (capped mx ?xs) ?ys)"
    by (simp only: map_map comp_def)
  also have "mn * real (length (filter ?P ws)) + sum_list (map (capped mx ?xs) ?ys)
               \<le> mn * real (length (filter ?P ws)) + sum_list ?ys"
    using capped_sum_le [OF o n] by simp
  also have "sum_list ?ys = budget_left B mn ws * (sum_list ?fr / max (1 / 10 ^ 12) (sum_list ?fr))"
    by (rule sum_reshare)
  also have "mn * real (length (filter ?P ws))
               + budget_left B mn ws * (sum_list ?fr / max (1 / 10 ^ 12) (sum_list ?fr))
             \<le> mn * real (length (filter ?P ws)) + budget_left B mn ws * 1"
    using ratio_le_one [OF t0] rem by (simp only: add_left_mono mult_left_mono less_imp_le)
  also have "\<dots> = B" by (simp add: budget_left_def)
  finally show ?thesis .
qed

text \<open>No pin: the shares, clipped, with the overflow spread.\<close>

lemma no_pins:
  assumes np: "\<forall>w\<in>set ws. \<not> pinned B mn ws w"
      and s: "1 / 10 ^ 12 \<le> sum_list ws"
  shows "budget_left B mn ws = B"
    and "\<And>w. reshare B mn ws w = share B ws w"
    and "map (before_max B mn ws) ws = map (share B ws) ws"
proof -
  have f: "filter (pinned B mn ws) ws = []" using np by (simp add: filter_empty_conv)
  have g: "filter (\<lambda>w. \<not> pinned B mn ws w) ws = ws" using np by (simp add: filter_id_conv)
  show b: "budget_left B mn ws = B" by (simp add: budget_left_def f)
  have m: "max (1 / 10 ^ 12) (sum_list ws) = sum_list ws" using s by (rule max_absorb2)
  show r: "\<And>w. reshare B mn ws w = share B ws w"
    unfolding reshare_def share_def b g m ..
  show "map (before_max B mn ws) ws = map (share B ws) ws"
    by (rule map_cong [OF refl]) (simp add: before_max_def np r)
qed

lemma sum_shares:
  assumes "1 / 10 ^ 12 \<le> sum_list ws"
  shows "sum_list (map (share B ws) ws) = B"
proof -
  have "0 < sum_list ws" by (rule less_le_trans [OF _ assms]) simp
  then have nz: "sum_list ws / sum_list ws = 1" by simp
  have "map (share B ws) ws = map (\<lambda>w. B * (w / sum_list ws)) ws"
    by (rule map_cong [OF refl]) (simp only: share_def)
  then show ?thesis by (simp only: sum_list_scaled nz mult_1_right)
qed

lemma zip_keys:
  "length ws = length feats \<Longrightarrow>
   map (\<lambda>(f, w). mf_condition_id f) (zip feats ws) = map mf_condition_id feats"
proof -
  assume l: "length ws = length feats"
  have "map (\<lambda>(f, w). mf_condition_id f) (zip feats ws)
          = map mf_condition_id (map fst (zip feats ws))"
    by (simp only: map_cid_fst)
  also have "map fst (zip feats ws) = feats" using l by simp
  finally show ?thesis .
qed

lemma allocate_closed:
  assumes ne: "feats \<noteq> []"
      and w: "weights self feats = Inr ws"
      and d: "distinct (map mf_condition_id feats)"
  shows "allocate self feats
         = Inr (if budget_left (ca_total_budget_usd self) (ca_min_per_market self) ws \<le> 0
                then map (\<lambda>(f, w). (mf_condition_id f,
                            min (ca_max_per_market self) (ca_min_per_market self)))
                       (filter (\<lambda>(f, w). pinned (ca_total_budget_usd self)
                                            (ca_min_per_market self) ws w) (zip feats ws))
                else map (\<lambda>(f, w). (mf_condition_id f,
                            if pinned (ca_total_budget_usd self) (ca_min_per_market self) ws w
                            then ca_min_per_market self
                            else capped (ca_max_per_market self)
                                   (map (before_max (ca_total_budget_usd self)
                                           (ca_min_per_market self) ws) ws)
                                   (reshare (ca_total_budget_usd self) (ca_min_per_market self)
                                      ws w))) (zip feats ws))"
proof -
  from weights_Inr [OF w] have l: "length ws = length feats" and pos: "\<forall>w\<in>set ws. 0 < w"
    by blast+
  have wne: "ws \<noteq> []" using ne l by auto
  have e1: "map fst (zip feats ws) = feats" and e2: "map snd (zip feats ws) = ws"
    using l by simp_all
  have dz: "distinct (map (\<lambda>(f, w). mf_condition_id f) (zip feats ws))"
    unfolding zip_keys [OF l] by (rule d)
  have s: "0 < sum_list (map snd (zip feats ws))"
    unfolding e2 by (rule sum_list_pos_real [OF wne pos])
  have "allocate self feats = Inr (allocate_caps self feats ws)"
    using ne by (simp add: allocate_def w)
  then show ?thesis
    unfolding allocate_caps_closed [OF dz s, unfolded e1 e2] .
qed

lemma min_absorb: "(mn::real) \<le> mx \<Longrightarrow> min mx mn = mn"
  by (simp add: min_def)

lemma before_max_le:
  assumes mm: "mn \<le> mx"
      and fr: "\<forall>w\<in>set ws. \<not> pinned B mn ws w \<longrightarrow> reshare B mn ws w \<le> mx"
  shows "overflow_of mx (map (before_max B mn ws) ws) = 0"
  unfolding overflow_zero_iff using mm fr by (auto simp: before_max_def pinned_def)

lemma pinned_sum_eq:
  assumes s2: "1 / 10 ^ 12 \<le> sum_list (filter (\<lambda>w. \<not> pinned B mn ws w) ws)"
  shows "sum_list (map (\<lambda>w. if pinned B mn ws w then mn else reshare B mn ws w) ws) = B"
proof -
  have "sum_list (map (\<lambda>w. if pinned B mn ws w then mn else reshare B mn ws w) ws)
          = mn * real (length (filter (pinned B mn ws) ws))
            + sum_list (map (reshare B mn ws) (filter (\<lambda>w. \<not> pinned B mn ws w) ws))"
    by (rule sum_if_split)
  also have "\<dots> = mn * real (length (filter (pinned B mn ws) ws)) + budget_left B mn ws * 1"
    by (simp only: sum_reshare ratio_one [OF s2])
  also have "\<dots> = B" by (simp add: budget_left_def)
  finally show ?thesis .
qed

lemma in_zip_snd: "(f, w) \<in> set (zip feats ws) \<Longrightarrow> w \<in> set ws"
  by (rule set_zip_rightD)

text \<open>The example markets.\<close>

lemma float_max_big: "(10::real) ^ 300 \<le> float_max"
  by (simp add: float_max_def)

lemma weight_plain:
  assumes l: "1 / 10 ^ 9 \<le> mf_liquidity_num f"
      and p: "mf_liquidity_num f powr ca_liquidity_power self = b"
      and b: "b \<le> 10 ^ 300"
      and mk: "mf_markout_sum f = 0"
      and fr: "1 \<le> real_of_int (mf_fills f) / real_of_int (max 1 (mf_quotes f)) * 20"
  shows "weight self f = Inr b"
proof -
  have m: "max (1 / 10 ^ 9) (mf_liquidity_num f) = mf_liquidity_num f"
    using l by (rule max_absorb2)
  have f1: "\<not> b > float_max" using b float_max_big by linarith
  have ex: "exp (- ca_quality_k self
                   * max 0 (- (mf_markout_sum f / real_of_int (max 1 (mf_fills f))))) = 1"
    by (simp add: mk)
  have "(1::real) \<le> 10 ^ 300" by simp
  then have f2: "\<not> (1::real) > float_max" using float_max_big by linarith
  have q: "min 1 (real_of_int (mf_fills f) / real_of_int (max 1 (mf_quotes f)) * 20) = 1"
    using fr by (rule min_absorb1)
  have c: "max (0.05::real) (min 1.5 (1 * (0.5 + 0.5 * 1))) = 1" by simp
  show ?thesis
    unfolding weight_def Let_def m p ex q c using f1 f2 by simp
qed

lemma demo_weight:
  assumes a: "1 / 10 ^ 9 \<le> liq" and b: "liq \<le> 10 ^ 300"
  shows "weight (demo_alloc B mn mx) (demo_market cid liq) = Inr liq"
proof (rule weight_plain)
  have l: "0 < liq" by (rule less_le_trans [OF _ a]) simp
  show "1 / 10 ^ 9 \<le> mf_liquidity_num (demo_market cid liq)"
    using a by (simp add: demo_market_def)
  show "mf_liquidity_num (demo_market cid liq) powr ca_liquidity_power (demo_alloc B mn mx) = liq"
    using l by (simp add: demo_market_def demo_alloc_def)
  show "liq \<le> 10 ^ 300" by (rule b)
  show "mf_markout_sum (demo_market cid liq) = 0" by (simp add: demo_market_def)
  show "1 \<le> real_of_int (mf_fills (demo_market cid liq))
               / real_of_int (max 1 (mf_quotes (demo_market cid liq))) * 20"
    by (simp add: demo_market_def)
qed

lemma scenario_weight:
  assumes a: "0 < x" and b: "x \<le> 10 ^ 300" and c: "1 / 10 ^ 9 \<le> x ^ 2"
  shows "weight scenario_alloc (scenario_market cid (x ^ 2)) = Inr x"
proof (rule weight_plain)
  have "(x ^ 2) powr (1 / 2) = sqrt (x ^ 2)" by (rule powr_half_sqrt) simp
  also have "\<dots> = x" using a by simp
  finally have p: "(x ^ 2) powr (1 / 2) = x" .
  show "1 / 10 ^ 9 \<le> mf_liquidity_num (scenario_market cid (x ^ 2))"
    using c by (simp add: scenario_market_def)
  show "mf_liquidity_num (scenario_market cid (x ^ 2)) powr ca_liquidity_power scenario_alloc = x"
    using p by (simp add: scenario_market_def scenario_alloc_def)
  show "x \<le> 10 ^ 300" by (rule b)
  show "mf_markout_sum (scenario_market cid (x ^ 2)) = 0" by (simp add: scenario_market_def)
  show "1 \<le> real_of_int (mf_fills (scenario_market cid (x ^ 2)))
               / real_of_int (max 1 (mf_quotes (scenario_market cid (x ^ 2)))) * 20"
    by (simp add: scenario_market_def)
qed

lemma demo_cid: "mf_condition_id (demo_market cid liq) = cid"
  by (simp add: demo_market_def)

lemma scenario_cid: "mf_condition_id (scenario_market cid liq) = cid"
  by (simp add: scenario_market_def)

lemma demo_alloc_fields:
  "ca_total_budget_usd (demo_alloc B mn mx) = B"
  "ca_min_per_market (demo_alloc B mn mx) = mn"
  "ca_max_per_market (demo_alloc B mn mx) = mx"
  by (simp_all add: demo_alloc_def)

lemma scenario_alloc_fields:
  "ca_total_budget_usd scenario_alloc = 100"
  "ca_min_per_market scenario_alloc = 5"
  "ca_max_per_market scenario_alloc = 60"
  by (simp_all add: scenario_alloc_def)

lemma weight_overflow:
  assumes l: "1 / 10 ^ 9 \<le> mf_liquidity_num f"
      and p: "mf_liquidity_num f powr ca_liquidity_power self = b"
      and b: "b > float_max"
  shows "weight self f = Inl OverflowError"
proof -
  have m: "max (1 / 10 ^ 9) (mf_liquidity_num f) = mf_liquidity_num f"
    using l by (rule max_absorb2)
  show ?thesis unfolding weight_def Let_def m p using b by simp
qed

lemma demo_weights_one:
  "weights (demo_alloc B mn mx) [demo_market ''M1'' 1] = Inr [1]"
  by (simp add: demo_weight)

lemma demo_weights_three:
  "1 / 10 ^ 9 \<le> a \<Longrightarrow> a \<le> 10 ^ 300 \<Longrightarrow> 1 / 10 ^ 9 \<le> b \<Longrightarrow> b \<le> 10 ^ 300 \<Longrightarrow>
   1 / 10 ^ 9 \<le> c \<Longrightarrow> c \<le> 10 ^ 300 \<Longrightarrow>
   weights (demo_alloc B mn mx) [demo_market ''M1'' a, demo_market ''M2'' b, demo_market ''M3'' c]
     = Inr [a, b, c]"
  by (simp add: demo_weight)

lemma scenario_weights:
  "weights scenario_alloc [scenario_market ''M1'' 10000, scenario_market ''M2'' 100] = Inr [100, 10]"
proof -
  have a: "weight scenario_alloc (scenario_market ''M1'' (100 ^ 2)) = Inr 100"
    by (rule scenario_weight) simp_all
  have b: "weight scenario_alloc (scenario_market ''M2'' (10 ^ 2)) = Inr 10"
    by (rule scenario_weight) simp_all
  have e: "(100::real) ^ 2 = 10000" "(10::real) ^ 2 = 100" by simp_all
  show ?thesis using a b unfolding e by simp
qed

lemma allocate_Inr:
  "feats \<noteq> [] \<Longrightarrow> weights self feats = Inr ws \<Longrightarrow>
   allocate self feats = Inr (allocate_caps self feats ws)"
  by (simp add: allocate_def)

lemma alloc_one:
  "allocate (demo_alloc 100 5 60) [demo_market ''M1'' 1] = Inr [(''M1'', 60)]"
proof -
  have "allocate_caps (demo_alloc 100 5 60) [demo_market ''M1'' 1] [1] = [(''M1'', 60)]"
    by (simp add: allocate_caps_def Let_def demo_cid demo_alloc_fields dget_def)
  then show ?thesis using allocate_Inr [OF _ demo_weights_one, of 100 5 60] by simp
qed

lemma alloc_three:
  "allocate (demo_alloc 12 4 60)
     [demo_market ''M1'' (11 / 10), demo_market ''M2'' 1, demo_market ''M3'' (9 / 10)]
   = Inr [(''M1'', 88 / 21), (''M2'', 80 / 21), (''M3'', 4)]"
proof -
  let ?feats = "[demo_market ''M1'' (11 / 10), demo_market ''M2'' 1, demo_market ''M3'' (9 / 10)]"
  have w: "weights (demo_alloc 12 4 60) ?feats = Inr [11 / 10, 1, 9 / 10]"
    by (rule demo_weights_three) simp_all
  have "allocate_caps (demo_alloc 12 4 60) ?feats [11 / 10, 1, 9 / 10]
          = [(''M1'', 88 / 21), (''M2'', 80 / 21), (''M3'', 4)]"
    by (simp add: allocate_caps_def Let_def demo_cid demo_alloc_fields dget_def enumerate_eq_zip)
  then show ?thesis using allocate_Inr [OF _ w] by simp
qed

lemma alloc_lost:
  "allocate (demo_alloc 100 5 60)
     [demo_market ''M1'' 96, demo_market ''M2'' 2, demo_market ''M3'' 2]
   = Inr [(''M1'', 60), (''M2'', 5), (''M3'', 5)]"
proof -
  let ?feats = "[demo_market ''M1'' 96, demo_market ''M2'' 2, demo_market ''M3'' 2]"
  have w: "weights (demo_alloc 100 5 60) ?feats = Inr [96, 2, 2]"
    by (rule demo_weights_three) simp_all
  have "allocate_caps (demo_alloc 100 5 60) ?feats [96, 2, 2]
          = [(''M1'', 60), (''M2'', 5), (''M3'', 5)]"
    by (simp add: allocate_caps_def Let_def demo_cid demo_alloc_fields dget_def enumerate_eq_zip)
  then show ?thesis using allocate_Inr [OF _ w] by simp
qed

lemma alloc_overflow:
  "allocate ((demo_alloc 100 5 60)\<lparr>ca_liquidity_power := 2\<rparr>) [demo_market ''M1'' (10 ^ 200)]
     = Inl OverflowError"
proof -
  have "((10::real) ^ 200) powr 2 = (10 ^ 200) ^ 2" by (simp add: powr_numeral)
  also have "\<dots> = 10 ^ 400" by simp
  finally have p: "((10::real) ^ 200) powr 2 = 10 ^ 400" .
  have "weight ((demo_alloc 100 5 60)\<lparr>ca_liquidity_power := 2\<rparr>) (demo_market ''M1'' (10 ^ 200))
          = Inl OverflowError"
  proof (rule weight_overflow)
    show "1 / 10 ^ 9 \<le> mf_liquidity_num (demo_market ''M1'' (10 ^ 200))"
      by (simp add: demo_market_def)
    show "mf_liquidity_num (demo_market ''M1'' (10 ^ 200))
            powr ca_liquidity_power ((demo_alloc 100 5 60)\<lparr>ca_liquidity_power := 2\<rparr>)
          = 10 ^ 400"
      using p by (simp add: demo_market_def demo_alloc_def)
    show "(10::real) ^ 400 > float_max" by (simp add: float_max_def)
  qed
  then show ?thesis by (simp add: allocate_def)
qed

text \<open>
  C4, as stated, fails. The sum is not the budget when a cap binds: one market with
  \<open>B = 100\<close> and \<open>max = 60\<close> gets 60. A value can fall below the minimum: with
  \<open>B = 12\<close>, \<open>min = 4\<close> and weights 1.1, 1, 0.9 the third market is pinned at 4 and the
  re-allocation of the remaining 8 gives the second market \<open>80/21 < 4\<close>. Budget can be lost
  although the caps leave room for it: with \<open>B = 100\<close>, \<open>min = 5\<close>, \<open>max = 60\<close> and weights
  96, 2, 2 the overflow of the first market is spread over the two pinned markets, whose
  values the pins then overwrite, and the result 60, 5, 5 sums to 70. And no map is returned
  when a weight overflows: liquidity \<open>1e200\<close> with power 2 raises \<^verbatim>\<open>OverflowError\<close>.
\<close>

theorem allocate_counterexample:
  "(0::real) \<le> 5 \<and> (5::real) \<le> 60
   \<and> allocate (demo_alloc 100 5 60) [demo_market ''M1'' 1] = Inr [(''M1'', 60)]
   \<and> dict_sum [(''M1'', 60)] = 60
   \<and> (0::real) \<le> 4 \<and> (4::real) \<le> 60
   \<and> allocate (demo_alloc 12 4 60)
        [demo_market ''M1'' (11 / 10), demo_market ''M2'' 1, demo_market ''M3'' (9 / 10)]
       = Inr [(''M1'', 88 / 21), (''M2'', 80 / 21), (''M3'', 4)]
   \<and> (80::real) / 21 < 4
   \<and> allocate (demo_alloc 100 5 60)
        [demo_market ''M1'' 96, demo_market ''M2'' 2, demo_market ''M3'' 2]
       = Inr [(''M1'', 60), (''M2'', 5), (''M3'', 5)]
   \<and> dict_sum [(''M1'', 60), (''M2'', 5), (''M3'', 5)] = 70
   \<and> allocate ((demo_alloc 100 5 60)\<lparr>ca_liquidity_power := 2\<rparr>) [demo_market ''M1'' (10 ^ 200)]
       = Inl OverflowError"
  by (intro conjI alloc_one alloc_three alloc_lost alloc_overflow) (simp_all add: dict_sum_def)

text \<open>
  C4, amended: for every non-empty list of MarketFeatures on which the computation of the
  weights \<open>ws\<close> does not overflow, and every budget \<open>B\<close> with
  \<open>min_per_market \<le> max_per_market\<close>, \<^verbatim>\<open>allocate\<close> returns a map, and every value of the map is
  at most \<open>max_per_market\<close>. When the identifiers are distinct, a market is pinned when its
  proportional share \<open>B \<cdot> w / \<Sigma>w\<close> is under \<open>min_per_market\<close>, and:

    \<^item> if the pins leave nothing of the budget (\<open>B - min \<cdot> #pinned \<le> 0\<close>), the map holds exactly
      the pinned markets, each with \<open>min_per_market\<close>;

    \<^item> if they leave something, the map holds every market, a pinned market with exactly
      \<open>min_per_market\<close>, a free market with at least the smaller of \<open>max_per_market\<close> and its share
      of what is left, \<open>(B - min \<cdot> #pinned) \<cdot> w / max(1e-12, \<Sigma>w of the free markets)\<close>, and the
      values sum to at most \<open>B\<close>;

    \<^item> if moreover the free weights sum to at least \<open>1e-12\<close> and every such share of a free
      market lies in \<open>[min_per_market, max_per_market]\<close>, each free market gets exactly that
      share, every value lies in \<open>[min_per_market, max_per_market]\<close> and the values sum to \<open>B\<close>;

    \<^item> if no market is pinned, \<open>B > 0\<close> and the weights sum to at least \<open>1e-12\<close>, each market
      gets its proportional share clipped to \<open>max_per_market\<close>, or, when that share is not above
      the maximum and some share is, the share plus an equal part of the overflow, limited by
      \<open>max_per_market\<close>; every value lies in \<open>[min_per_market, max_per_market]\<close>, and the values
      sum to \<open>B\<close> exactly when the spread places the whole overflow (no share is above the
      maximum, or some share is not above it and each such share plus its part of the overflow
      stays within the maximum).
\<close>

theorem allocate_spec:
  assumes ne: "feats \<noteq> []"
      and mm: "ca_min_per_market self \<le> ca_max_per_market self"
      and w: "weights self feats = Inr ws"
  shows "\<exists>r. allocate self feats = Inr r
      \<and> (\<forall>k v. map_of r k = Some v \<longrightarrow> v \<le> ca_max_per_market self)
      \<and> (distinct (map mf_condition_id feats) \<longrightarrow>
            (budget_left (ca_total_budget_usd self) (ca_min_per_market self) ws \<le> 0 \<longrightarrow>
               r = map (\<lambda>(f, w). (mf_condition_id f, ca_min_per_market self))
                     (filter (\<lambda>(f, w). pinned (ca_total_budget_usd self)
                                          (ca_min_per_market self) ws w) (zip feats ws)))
          \<and> (0 < budget_left (ca_total_budget_usd self) (ca_min_per_market self) ws \<longrightarrow>
               map fst r = map mf_condition_id feats
             \<and> (\<forall>(f, w)\<in>set (zip feats ws).
                   if pinned (ca_total_budget_usd self) (ca_min_per_market self) ws w
                   then map_of r (mf_condition_id f) = Some (ca_min_per_market self)
                   else \<exists>v. map_of r (mf_condition_id f) = Some v
                          \<and> min (ca_max_per_market self)
                               (reshare (ca_total_budget_usd self) (ca_min_per_market self) ws w)
                             \<le> v)
             \<and> dict_sum r \<le> ca_total_budget_usd self)
          \<and> (0 < budget_left (ca_total_budget_usd self) (ca_min_per_market self) ws
              \<and> 1 / 10 ^ 12
                  \<le> sum_list (filter (\<lambda>w. \<not> pinned (ca_total_budget_usd self)
                                              (ca_min_per_market self) ws w) ws)
              \<and> (\<forall>w\<in>set ws.
                    \<not> pinned (ca_total_budget_usd self) (ca_min_per_market self) ws w \<longrightarrow>
                    ca_min_per_market self
                      \<le> reshare (ca_total_budget_usd self) (ca_min_per_market self) ws w
                    \<and> reshare (ca_total_budget_usd self) (ca_min_per_market self) ws w
                      \<le> ca_max_per_market self) \<longrightarrow>
               r = map (\<lambda>(f, w). (mf_condition_id f,
                          if pinned (ca_total_budget_usd self) (ca_min_per_market self) ws w
                          then ca_min_per_market self
                          else reshare (ca_total_budget_usd self) (ca_min_per_market self) ws w))
                     (zip feats ws)
             \<and> (\<forall>(k, v)\<in>set r. ca_min_per_market self \<le> v \<and> v \<le> ca_max_per_market self)
             \<and> dict_sum r = ca_total_budget_usd self)
          \<and> ((\<forall>w\<in>set ws. \<not> pinned (ca_total_budget_usd self) (ca_min_per_market self) ws w)
              \<and> 0 < ca_total_budget_usd self \<and> 1 / 10 ^ 12 \<le> sum_list ws \<longrightarrow>
               r = map (\<lambda>(f, w). (mf_condition_id f,
                          capped (ca_max_per_market self)
                            (map (share (ca_total_budget_usd self) ws) ws)
                            (share (ca_total_budget_usd self) ws w)))
                     (zip feats ws)
             \<and> (\<forall>(k, v)\<in>set r. ca_min_per_market self \<le> v \<and> v \<le> ca_max_per_market self)
             \<and> (dict_sum r = ca_total_budget_usd self)
                 = absorbed (ca_max_per_market self)
                     (map (share (ca_total_budget_usd self) ws) ws)))"
proof -
  let ?B = "ca_total_budget_usd self"
  let ?mn = "ca_min_per_market self"
  let ?mx = "ca_max_per_market self"
  let ?P = "pinned ?B ?mn ws"
  let ?zs = "zip feats ws"
  let ?xs = "map (before_max ?B ?mn ws) ws"
  let ?X = "map (\<lambda>(f, w). (mf_condition_id f, min ?mx ?mn)) (filter (\<lambda>(f, w). ?P w) ?zs)"
  let ?Y = "map (\<lambda>(f, w). (mf_condition_id f,
                   if ?P w then ?mn else capped ?mx ?xs (reshare ?B ?mn ws w))) ?zs"
  define r where "r = allocate_caps self feats ws"
  from weights_Inr [OF w] have l: "length ws = length feats" and pos: "\<forall>w\<in>set ws. 0 < w"
    by blast+
  have e2: "map snd ?zs = ws" using l by simp
  have al: "allocate self feats = Inr r"
    using ne by (simp add: allocate_def w r_def)
  have A: "\<forall>k v. map_of r k = Some v \<longrightarrow> v \<le> ?mx"
    unfolding r_def using allocate_caps_le_max [OF mm] by blast
  have C: "distinct (map mf_condition_id feats) \<longrightarrow>
            (budget_left ?B ?mn ws \<le> 0 \<longrightarrow>
               r = map (\<lambda>(f, w). (mf_condition_id f, ?mn)) (filter (\<lambda>(f, w). ?P w) ?zs))
          \<and> (0 < budget_left ?B ?mn ws \<longrightarrow>
               map fst r = map mf_condition_id feats
             \<and> (\<forall>(f, w)\<in>set ?zs.
                   if ?P w then map_of r (mf_condition_id f) = Some ?mn
                   else \<exists>v. map_of r (mf_condition_id f) = Some v
                          \<and> min ?mx (reshare ?B ?mn ws w) \<le> v)
             \<and> dict_sum r \<le> ?B)
          \<and> (0 < budget_left ?B ?mn ws
              \<and> 1 / 10 ^ 12 \<le> sum_list (filter (\<lambda>w. \<not> ?P w) ws)
              \<and> (\<forall>w\<in>set ws. \<not> ?P w \<longrightarrow>
                    ?mn \<le> reshare ?B ?mn ws w \<and> reshare ?B ?mn ws w \<le> ?mx) \<longrightarrow>
               r = map (\<lambda>(f, w). (mf_condition_id f,
                          if ?P w then ?mn else reshare ?B ?mn ws w)) ?zs
             \<and> (\<forall>(k, v)\<in>set r. ?mn \<le> v \<and> v \<le> ?mx)
             \<and> dict_sum r = ?B)
          \<and> ((\<forall>w\<in>set ws. \<not> ?P w) \<and> 0 < ?B \<and> 1 / 10 ^ 12 \<le> sum_list ws \<longrightarrow>
               r = map (\<lambda>(f, w). (mf_condition_id f,
                          capped ?mx (map (share ?B ws) ws) (share ?B ws w))) ?zs
             \<and> (\<forall>(k, v)\<in>set r. ?mn \<le> v \<and> v \<le> ?mx)
             \<and> (dict_sum r = ?B) = absorbed ?mx (map (share ?B ws) ws))"
  proof
    assume d: "distinct (map mf_condition_id feats)"
    have dz: "distinct (map (\<lambda>(f, w). mf_condition_id f) ?zs)"
      unfolding zip_keys [OF l] by (rule d)
    have "allocate self feats = Inr (if budget_left ?B ?mn ws \<le> 0 then ?X else ?Y)"
      by (rule allocate_closed [OF ne w d])
    then have cf: "r = (if budget_left ?B ?mn ws \<le> 0 then ?X else ?Y)"
      unfolding al by (simp only: sum.inject)
    have rY: "0 < budget_left ?B ?mn ws \<Longrightarrow> r = ?Y" unfolding cf by simp
    have p1: "budget_left ?B ?mn ws \<le> 0 \<longrightarrow>
               r = map (\<lambda>(f, w). (mf_condition_id f, ?mn)) (filter (\<lambda>(f, w). ?P w) ?zs)"
    proof
      assume "budget_left ?B ?mn ws \<le> 0"
      then have "r = ?X" unfolding cf by (simp only: if_True)
      then show "r = map (\<lambda>(f, w). (mf_condition_id f, ?mn)) (filter (\<lambda>(f, w). ?P w) ?zs)"
        by (simp only: min_absorb [OF mm])
    qed
    have p2: "0 < budget_left ?B ?mn ws \<longrightarrow>
               map fst r = map mf_condition_id feats
             \<and> (\<forall>(f, w)\<in>set ?zs.
                   if ?P w then map_of r (mf_condition_id f) = Some ?mn
                   else \<exists>v. map_of r (mf_condition_id f) = Some v
                          \<and> min ?mx (reshare ?B ?mn ws w) \<le> v)
             \<and> dict_sum r \<le> ?B"
    proof (intro impI conjI)
      assume rem: "0 < budget_left ?B ?mn ws"
      note y = rY [OF rem]
      show "map fst r = map mf_condition_id feats"
        unfolding y by (simp only: keyed_fst zip_keys [OF l])
      show "\<forall>(f, w)\<in>set ?zs.
              if ?P w then map_of r (mf_condition_id f) = Some ?mn
              else \<exists>v. map_of r (mf_condition_id f) = Some v
                     \<and> min ?mx (reshare ?B ?mn ws w) \<le> v"
      proof (rule ballI)
        fix z
        assume m: "z \<in> set ?zs"
        obtain f w where z: "z = (f, w)" by (cases z)
        have g: "map_of r (mf_condition_id f)
                   = Some (if ?P w then ?mn else capped ?mx ?xs (reshare ?B ?mn ws w))"
          unfolding y by (rule keyed_get [OF dz]) (use m z in simp)
        show "case z of (f, w) \<Rightarrow>
                if ?P w then map_of r (mf_condition_id f) = Some ?mn
                else \<exists>v. map_of r (mf_condition_id f) = Some v
                       \<and> min ?mx (reshare ?B ?mn ws w) \<le> v"
        proof (cases "?P w")
          case True
          then show ?thesis using g by (simp add: z)
        next
          case False
          have "min ?mx (reshare ?B ?mn ws w) \<le> capped ?mx ?xs (reshare ?B ?mn ws w)"
            by (rule capped_ge)
          then show ?thesis using g False by (simp add: z)
        qed
      qed
      show "dict_sum r \<le> ?B"
        unfolding y keyed_sum e2 by (rule pinned_sum_le [OF mm pos rem])
    qed
    have p3: "0 < budget_left ?B ?mn ws
              \<and> 1 / 10 ^ 12 \<le> sum_list (filter (\<lambda>w. \<not> ?P w) ws)
              \<and> (\<forall>w\<in>set ws. \<not> ?P w \<longrightarrow>
                    ?mn \<le> reshare ?B ?mn ws w \<and> reshare ?B ?mn ws w \<le> ?mx) \<longrightarrow>
               r = map (\<lambda>(f, w). (mf_condition_id f,
                          if ?P w then ?mn else reshare ?B ?mn ws w)) ?zs
             \<and> (\<forall>(k, v)\<in>set r. ?mn \<le> v \<and> v \<le> ?mx)
             \<and> dict_sum r = ?B"
    proof (intro impI)
      assume H: "0 < budget_left ?B ?mn ws
              \<and> 1 / 10 ^ 12 \<le> sum_list (filter (\<lambda>w. \<not> ?P w) ws)
              \<and> (\<forall>w\<in>set ws. \<not> ?P w \<longrightarrow>
                    ?mn \<le> reshare ?B ?mn ws w \<and> reshare ?B ?mn ws w \<le> ?mx)"
      then have rem: "0 < budget_left ?B ?mn ws"
        and s2: "1 / 10 ^ 12 \<le> sum_list (filter (\<lambda>w. \<not> ?P w) ws)"
        and fr: "\<And>w. w \<in> set ws \<Longrightarrow> \<not> ?P w \<Longrightarrow>
                   ?mn \<le> reshare ?B ?mn ws w \<and> reshare ?B ?mn ws w \<le> ?mx"
        by blast+
      have ov0: "overflow_of ?mx ?xs = 0"
        by (rule before_max_le [OF mm]) (use fr in blast)
      have "?Y = map (\<lambda>(f, w). (mf_condition_id f,
                        if ?P w then ?mn else reshare ?B ?mn ws w)) ?zs"
      proof (rule map_cong [OF refl])
        fix z
        assume m: "z \<in> set ?zs"
        obtain f w where z: "z = (f, w)" by (cases z)
        have wm: "w \<in> set ws" using m unfolding z by (rule in_zip_snd)
        have "\<not> ?P w \<Longrightarrow> capped ?mx ?xs (reshare ?B ?mn ws w) = reshare ?B ?mn ws w"
          by (rule capped_id [OF ov0]) (use fr [OF wm] in simp)
        then show "(case z of (f, w) \<Rightarrow> (mf_condition_id f,
                      if ?P w then ?mn else capped ?mx ?xs (reshare ?B ?mn ws w)))
                   = (case z of (f, w) \<Rightarrow> (mf_condition_id f,
                      if ?P w then ?mn else reshare ?B ?mn ws w))"
          by (simp add: z)
      qed
      then have e: "r = map (\<lambda>(f, w). (mf_condition_id f,
                               if ?P w then ?mn else reshare ?B ?mn ws w)) ?zs"
        using rY [OF rem] by (rule trans [rotated])
      have rng: "\<forall>(k, v)\<in>set r. ?mn \<le> v \<and> v \<le> ?mx"
      proof (rule ballI)
        fix kv
        assume "kv \<in> set r"
        then obtain f w where m: "(f, w) \<in> set ?zs"
          and kv: "kv = (mf_condition_id f, if ?P w then ?mn else reshare ?B ?mn ws w)"
          unfolding e by auto
        have wm: "w \<in> set ws" using m by (rule in_zip_snd)
        show "case kv of (k, v) \<Rightarrow> ?mn \<le> v \<and> v \<le> ?mx"
          using fr [OF wm] mm by (simp add: kv)
      qed
      have sm: "dict_sum r = ?B"
        unfolding e keyed_sum e2 by (rule pinned_sum_eq [OF s2])
      show "r = map (\<lambda>(f, w). (mf_condition_id f,
                          if ?P w then ?mn else reshare ?B ?mn ws w)) ?zs
             \<and> (\<forall>(k, v)\<in>set r. ?mn \<le> v \<and> v \<le> ?mx)
             \<and> dict_sum r = ?B"
        using e rng sm by (intro conjI)
    qed
    have p4: "(\<forall>w\<in>set ws. \<not> ?P w) \<and> 0 < ?B \<and> 1 / 10 ^ 12 \<le> sum_list ws \<longrightarrow>
               r = map (\<lambda>(f, w). (mf_condition_id f,
                          capped ?mx (map (share ?B ws) ws) (share ?B ws w))) ?zs
             \<and> (\<forall>(k, v)\<in>set r. ?mn \<le> v \<and> v \<le> ?mx)
             \<and> (dict_sum r = ?B) = absorbed ?mx (map (share ?B ws) ws)"
    proof (intro impI)
      assume H: "(\<forall>w\<in>set ws. \<not> ?P w) \<and> 0 < ?B \<and> 1 / 10 ^ 12 \<le> sum_list ws"
      then have np: "\<forall>w\<in>set ws. \<not> ?P w" and Bp: "0 < ?B" and s: "1 / 10 ^ 12 \<le> sum_list ws"
        by blast+
      note n1 = no_pins(1) [OF np s] and n2 = no_pins(2) [OF np s] and n3 = no_pins(3) [OF np s]
      let ?sh = "map (share ?B ws) ws"
      have rem: "0 < budget_left ?B ?mn ws" unfolding n1 by (rule Bp)
      have "?Y = map (\<lambda>(f, w). (mf_condition_id f, capped ?mx ?sh (share ?B ws w))) ?zs"
      proof (rule map_cong [OF refl])
        fix z
        assume m: "z \<in> set ?zs"
        obtain f w where z: "z = (f, w)" by (cases z)
        have wm: "w \<in> set ws" using m unfolding z by (rule in_zip_snd)
        have "\<not> ?P w" using np wm by blast
        then show "(case z of (f, w) \<Rightarrow> (mf_condition_id f,
                      if ?P w then ?mn else capped ?mx ?xs (reshare ?B ?mn ws w)))
                   = (case z of (f, w) \<Rightarrow> (mf_condition_id f,
                      capped ?mx ?sh (share ?B ws w)))"
          unfolding n2 n3 by (simp add: z)
      qed
      then have e: "r = map (\<lambda>(f, w). (mf_condition_id f, capped ?mx ?sh (share ?B ws w))) ?zs"
        using rY [OF rem] by (rule trans [rotated])
      have rng: "\<forall>(k, v)\<in>set r. ?mn \<le> v \<and> v \<le> ?mx"
      proof (rule ballI)
        fix kv
        assume "kv \<in> set r"
        then obtain f w where m: "(f, w) \<in> set ?zs"
          and kv: "kv = (mf_condition_id f, capped ?mx ?sh (share ?B ws w))"
          unfolding e by auto
        have wm: "w \<in> set ws" using m by (rule in_zip_snd)
        have "\<not> ?P w" using np wm by blast
        then have "?mn \<le> share ?B ws w" by (simp add: pinned_def)
        then have "?mn \<le> min ?mx (share ?B ws w)" using mm by simp
        also have "\<dots> \<le> capped ?mx ?sh (share ?B ws w)" by (rule capped_ge)
        finally have lo: "?mn \<le> capped ?mx ?sh (share ?B ws w)" .
        have hi: "capped ?mx ?sh (share ?B ws w) \<le> ?mx" by (rule capped_le)
        show "case kv of (k, v) \<Rightarrow> ?mn \<le> v \<and> v \<le> ?mx"
          using lo hi by (simp add: kv)
      qed
      have "dict_sum r = sum_list (map (\<lambda>w. capped ?mx ?sh (share ?B ws w)) ws)"
        unfolding e keyed_sum e2 ..
      also have "\<dots> = sum_list (map (capped ?mx ?sh) ?sh)"
        by (simp only: map_map comp_def)
      finally have ds: "dict_sum r = sum_list (map (capped ?mx ?sh) ?sh)" .
      have sm: "(dict_sum r = ?B) = absorbed ?mx ?sh"
        unfolding ds using capped_sum_iff [of ?mx ?sh] by (simp only: sum_shares [OF s])
      show "r = map (\<lambda>(f, w). (mf_condition_id f, capped ?mx ?sh (share ?B ws w))) ?zs
             \<and> (\<forall>(k, v)\<in>set r. ?mn \<le> v \<and> v \<le> ?mx)
             \<and> (dict_sum r = ?B) = absorbed ?mx ?sh"
        using e rng sm by (intro conjI)
    qed
    show "(budget_left ?B ?mn ws \<le> 0 \<longrightarrow>
               r = map (\<lambda>(f, w). (mf_condition_id f, ?mn)) (filter (\<lambda>(f, w). ?P w) ?zs))
          \<and> (0 < budget_left ?B ?mn ws \<longrightarrow>
               map fst r = map mf_condition_id feats
             \<and> (\<forall>(f, w)\<in>set ?zs.
                   if ?P w then map_of r (mf_condition_id f) = Some ?mn
                   else \<exists>v. map_of r (mf_condition_id f) = Some v
                          \<and> min ?mx (reshare ?B ?mn ws w) \<le> v)
             \<and> dict_sum r \<le> ?B)
          \<and> (0 < budget_left ?B ?mn ws
              \<and> 1 / 10 ^ 12 \<le> sum_list (filter (\<lambda>w. \<not> ?P w) ws)
              \<and> (\<forall>w\<in>set ws. \<not> ?P w \<longrightarrow>
                    ?mn \<le> reshare ?B ?mn ws w \<and> reshare ?B ?mn ws w \<le> ?mx) \<longrightarrow>
               r = map (\<lambda>(f, w). (mf_condition_id f,
                          if ?P w then ?mn else reshare ?B ?mn ws w)) ?zs
             \<and> (\<forall>(k, v)\<in>set r. ?mn \<le> v \<and> v \<le> ?mx)
             \<and> dict_sum r = ?B)
          \<and> ((\<forall>w\<in>set ws. \<not> ?P w) \<and> 0 < ?B \<and> 1 / 10 ^ 12 \<le> sum_list ws \<longrightarrow>
               r = map (\<lambda>(f, w). (mf_condition_id f,
                          capped ?mx (map (share ?B ws) ws) (share ?B ws w))) ?zs
             \<and> (\<forall>(k, v)\<in>set r. ?mn \<le> v \<and> v \<le> ?mx)
             \<and> (dict_sum r = ?B) = absorbed ?mx (map (share ?B ws) ws))"
      using p1 p2 p3 p4 by (intro conjI)
  qed
  show ?thesis using al A C by (intro exI [of _ r] conjI)
qed

text \<open>The four cases of the theorem, each at a concrete input.\<close>

lemma pick_first:
  "\<exists>r. P r \<and> Q r \<and> (D \<longrightarrow> (H \<longrightarrow> R r) \<and> C2 r \<and> C3 r \<and> C4 r) \<Longrightarrow> D \<Longrightarrow> H \<Longrightarrow>
   \<exists>r. P r \<and> R r"
  by blast

lemma pick_second:
  "\<exists>r. P r \<and> Q r \<and> (D \<longrightarrow> C1 r \<and> (H \<longrightarrow> R r) \<and> C3 r \<and> C4 r) \<Longrightarrow> D \<Longrightarrow> H \<Longrightarrow>
   \<exists>r. P r \<and> R r"
  by blast

lemma pick_third:
  "\<exists>r. P r \<and> Q r \<and> (D \<longrightarrow> C1 r \<and> C2 r \<and> (H \<longrightarrow> R r) \<and> C4 r) \<Longrightarrow> D \<Longrightarrow> H \<Longrightarrow>
   \<exists>r. P r \<and> R r"
  by blast

lemma pick_fourth:
  "\<exists>r. P r \<and> Q r \<and> (D \<longrightarrow> C1 r \<and> C2 r \<and> C3 r \<and> (H \<longrightarrow> R r)) \<Longrightarrow> D \<Longrightarrow> H \<Longrightarrow>
   \<exists>r. P r \<and> R r"
  by blast

theorem allocate_spec_witness:
  "allocate scenario_alloc [scenario_market ''M1'' 10000, scenario_market ''M2'' 100]
     = Inr [(''M1'', 60), (''M2'', 40)]
   \<and> dict_sum [(''M1'', 60), (''M2'', 40)] = 100
   \<and> absorbed 60 (map (share 100 [100, 10]) [100, 10])
   \<and> allocate (demo_alloc 100 5 60)
        [demo_market ''M1'' 50, demo_market ''M2'' 48, demo_market ''M3'' 2]
       = Inr [(''M1'', 2375 / 49), (''M2'', 2280 / 49), (''M3'', 5)]
   \<and> dict_sum [(''M1'', 2375 / 49), (''M2'', 2280 / 49), (''M3'', 5)] = 100
   \<and> allocate (demo_alloc 10 5 60)
        [demo_market ''M1'' 1, demo_market ''M2'' 1, demo_market ''M3'' 1]
       = Inr [(''M1'', 5), (''M2'', 5), (''M3'', 5)]"
proof -
  let ?self = "scenario_alloc"
  let ?feats = "[scenario_market ''M1'' 10000, scenario_market ''M2'' 100]"
  let ?ws = "[100, 10] :: real list"
  have ne: "?feats \<noteq> []" by simp
  have mm: "ca_min_per_market ?self \<le> ca_max_per_market ?self"
    by (simp add: scenario_alloc_fields)
  have d: "distinct (map mf_condition_id ?feats)" by (simp add: scenario_cid)
  have H: "(\<forall>w\<in>set ?ws. \<not> pinned (ca_total_budget_usd ?self) (ca_min_per_market ?self) ?ws w)
           \<and> 0 < ca_total_budget_usd ?self \<and> 1 / 10 ^ 12 \<le> sum_list ?ws"
    by (simp add: scenario_alloc_fields pinned_def share_def)
  have sh: "map (share 100 ?ws) ?ws = [1000 / 11, 100 / 11]" by (simp add: share_def)
  have ov: "overflow_of 60 [1000 / 11, 100 / 11] = 340 / 11" by (simp add: overflow_of_def)
  have nu: "n_under 60 [1000 / 11, 100 / 11] = 1" by (simp add: n_under_def)
  have ab: "absorbed 60 (map (share 100 ?ws) ?ws)"
    unfolding sh absorbed_def ov nu by simp
  have c1: "capped 60 [1000 / 11, 100 / 11] (1000 / 11) = 60"
    unfolding capped_def ov nu by simp
  have c2: "capped 60 [1000 / 11, 100 / 11] (100 / 11) = 40"
    unfolding capped_def ov nu by simp
  from pick_fourth [OF allocate_spec [OF ne mm scenario_weights] d H]
  obtain r where al: "allocate ?self ?feats = Inr r"
    and e: "r = map (\<lambda>(f, w). (mf_condition_id f,
                       capped (ca_max_per_market ?self)
                         (map (share (ca_total_budget_usd ?self) ?ws) ?ws)
                         (share (ca_total_budget_usd ?self) ?ws w))) (zip ?feats ?ws)"
    and s: "(dict_sum r = ca_total_budget_usd ?self)
              = absorbed (ca_max_per_market ?self)
                  (map (share (ca_total_budget_usd ?self) ?ws) ?ws)"
    by blast
  have e': "r = [(''M1'', 60), (''M2'', 40)]"
    unfolding e scenario_alloc_fields sh by (simp add: scenario_cid share_def c1 c2)
  have "dict_sum r = 100" using s ab by (simp add: scenario_alloc_fields)
  then have part1: "allocate ?self ?feats = Inr [(''M1'', 60), (''M2'', 40)]
                    \<and> dict_sum [(''M1'', 60), (''M2'', 40)] = 100
                    \<and> absorbed 60 (map (share 100 ?ws) ?ws)"
    using al ab unfolding e' by simp

  let ?self2 = "demo_alloc 100 5 60"
  let ?feats2 = "[demo_market ''M1'' 50, demo_market ''M2'' 48, demo_market ''M3'' 2]"
  let ?ws2 = "[50, 48, 2] :: real list"
  have ne2: "?feats2 \<noteq> []" by simp
  have mm2: "ca_min_per_market ?self2 \<le> ca_max_per_market ?self2"
    by (simp add: demo_alloc_fields)
  have w2: "weights ?self2 ?feats2 = Inr ?ws2" by (rule demo_weights_three) simp_all
  have d2: "distinct (map mf_condition_id ?feats2)" by (simp add: demo_cid)
  have pn2: "pinned 100 5 ?ws2 50 = False" "pinned 100 5 ?ws2 48 = False"
    "pinned 100 5 ?ws2 2 = True"
    by (simp_all add: pinned_def share_def)
  have bl2: "budget_left 100 5 ?ws2 = 95" by (simp add: budget_left_def pn2)
  have rs2: "reshare 100 5 ?ws2 50 = 2375 / 49" "reshare 100 5 ?ws2 48 = 2280 / 49"
    by (simp_all add: reshare_def bl2 pn2)
  have H2: "0 < budget_left (ca_total_budget_usd ?self2) (ca_min_per_market ?self2) ?ws2
            \<and> 1 / 10 ^ 12
                \<le> sum_list (filter (\<lambda>w. \<not> pinned (ca_total_budget_usd ?self2)
                                            (ca_min_per_market ?self2) ?ws2 w) ?ws2)
            \<and> (\<forall>w\<in>set ?ws2.
                  \<not> pinned (ca_total_budget_usd ?self2) (ca_min_per_market ?self2) ?ws2 w \<longrightarrow>
                  ca_min_per_market ?self2
                    \<le> reshare (ca_total_budget_usd ?self2) (ca_min_per_market ?self2) ?ws2 w
                  \<and> reshare (ca_total_budget_usd ?self2) (ca_min_per_market ?self2) ?ws2 w
                    \<le> ca_max_per_market ?self2)"
    unfolding demo_alloc_fields by (simp add: bl2 pn2 rs2)
  from pick_third [OF allocate_spec [OF ne2 mm2 w2] d2 H2]
  obtain r2 where al2: "allocate ?self2 ?feats2 = Inr r2"
    and e2: "r2 = map (\<lambda>(f, w). (mf_condition_id f,
                        if pinned (ca_total_budget_usd ?self2) (ca_min_per_market ?self2) ?ws2 w
                        then ca_min_per_market ?self2
                        else reshare (ca_total_budget_usd ?self2) (ca_min_per_market ?self2)
                               ?ws2 w)) (zip ?feats2 ?ws2)"
    and s2: "dict_sum r2 = ca_total_budget_usd ?self2"
    by blast
  have e2': "r2 = [(''M1'', 2375 / 49), (''M2'', 2280 / 49), (''M3'', 5)]"
    unfolding e2 demo_alloc_fields by (simp add: demo_cid pn2 rs2)
  have part2: "allocate ?self2 ?feats2 = Inr [(''M1'', 2375 / 49), (''M2'', 2280 / 49), (''M3'', 5)]
               \<and> dict_sum [(''M1'', 2375 / 49), (''M2'', 2280 / 49), (''M3'', 5)] = 100"
    using al2 s2 unfolding e2' by (simp add: demo_alloc_fields)

  let ?self3 = "demo_alloc 10 5 60"
  let ?feats3 = "[demo_market ''M1'' 1, demo_market ''M2'' 1, demo_market ''M3'' 1]"
  let ?ws3 = "[1, 1, 1] :: real list"
  have ne3: "?feats3 \<noteq> []" by simp
  have mm3: "ca_min_per_market ?self3 \<le> ca_max_per_market ?self3"
    by (simp add: demo_alloc_fields)
  have w3: "weights ?self3 ?feats3 = Inr ?ws3" by (rule demo_weights_three) simp_all
  have d3: "distinct (map mf_condition_id ?feats3)" by (simp add: demo_cid)
  have pn3: "pinned 10 5 ?ws3 1 = True" by (simp add: pinned_def share_def)
  have H3: "budget_left (ca_total_budget_usd ?self3) (ca_min_per_market ?self3) ?ws3 \<le> 0"
    unfolding demo_alloc_fields by (simp add: budget_left_def pn3)
  from pick_first [OF allocate_spec [OF ne3 mm3 w3] d3 H3]
  obtain r3 where al3: "allocate ?self3 ?feats3 = Inr r3"
    and e3: "r3 = map (\<lambda>(f, w). (mf_condition_id f, ca_min_per_market ?self3))
                    (filter (\<lambda>(f, w). pinned (ca_total_budget_usd ?self3)
                                         (ca_min_per_market ?self3) ?ws3 w) (zip ?feats3 ?ws3))"
    by blast
  have e3': "r3 = [(''M1'', 5), (''M2'', 5), (''M3'', 5)]"
    unfolding e3 demo_alloc_fields by (simp add: demo_cid pn3)
  have part3: "allocate ?self3 ?feats3 = Inr [(''M1'', 5), (''M2'', 5), (''M3'', 5)]"
    using al3 unfolding e3' .
  show ?thesis using part1 part2 part3 by (intro conjI) blast+
qed

end
